theory Spec2Isabelle
  imports Main
begin

section \<open>The firewall module (ironic_inspector/firewall.py)\<close>

text \<open>
  The module keeps its state in globals and talks to three collaborators: the
  packet-filter command (run through \<open>subprocess\<close>), the inventory client and the node
  cache, and the neighbour-table files of the EoIB interfaces. The globals become a
  record that every function takes and returns; the collaborators become the fields of
  an environment record, so that every theorem holds for whatever they answer.
  Exceptions are values: a function returns the exception it raised (if any) together
  with the state it left behind, since a raise does not undo the assignments made
  before it.

  The semaphore \<open>LOCK\<close> serialises the callers of \<open>update_filters\<close>; the model is
  sequential, one call running at a time, which is what the lock enforces.
\<close>

subsection \<open>Data\<close>

type_synonym mac = string

datatype error =
    AssertionError
  | TypeError
  | CalledProcessError
  | ClientError
  | ReError

datatype log_entry =
    IptablesFailed "string list"
  | NotEthernetOverInfiniBand string

record port =
  address :: mac
  extra :: "string \<rightharpoonup> string"

record config =
  manage_firewall :: bool
  dnsmasq_interface :: string
  firewall_chain :: string
  ethoib_interfaces :: "string list"
  node_not_found_hook :: "string option"
  rootwrap_config :: string

text \<open>
  The environment of one call. \<open>exec\<close> runs a command line in the outside world \<open>'w\<close>
  and tells whether it exited with status zero. \<open>text_output\<close> tells how the interpreter
  hands over the output of a command that failed: \<open>exc.output\<close> is a \<open>str\<close> under
  Python 2 and \<open>bytes\<close> under Python 3, where \<open>subprocess.check_output\<close> is called
  without a text mode. An inventory client is given by what its \<open>port.list\<close> answers
  (\<open>None\<close> when it raises): \<open>ironic\<close> is the optional argument of \<open>update_filters\<close>
  (\<open>None\<close> when the caller passes no client) and \<open>get_client\<close> is what
  \<open>ir_utils.get_client()\<close> returns (\<open>None\<close> when it raises). \<open>read_file\<close> is the file
  system (\<open>None\<close> when \<open>open\<close> raises \<open>IOError\<close>). \<open>set_iter\<close> is the order
  in which the interpreter iterates over a set, which the language leaves open.
  \<open>re_meta\<close> is what the regular-expression engine does with a GUID that contains
  metacharacters (the source does not escape it): \<open>None\<close> when it rejects the
  pattern with \<open>re.error\<close>, else group 1 of the match if there is one. A GUID without
  metacharacters is matched by \<open>emac_search_literal\<close> below.
\<close>

record 'w env =
  conf :: config
  exec :: "'w \<Rightarrow> string list \<Rightarrow> bool \<times> 'w"
  text_output :: bool
  introspection_active :: bool
  active_macs :: "mac set"
  ironic :: "port list option option"
  get_client :: "port list option option"
  read_file :: "string \<rightharpoonup> string"
  re_meta :: "string \<Rightarrow> string \<Rightarrow> string option option"
  set_iter :: "mac set \<Rightarrow> mac list"

text \<open>
  The module globals, the outside world, and two histories: every command line handed
  to \<open>subprocess\<close>, in order, and every \<open>LOG.error\<close> record.
\<close>

record 'w state =
  NEW_CHAIN :: "string option"
  CHAIN :: "string option"
  INTERFACE :: "string option"
  BASE_COMMAND :: "string list option"
  BLACKLIST_CACHE :: "mac set option"
  ENABLED :: bool
  world :: 'w
  issued :: "string list list"
  logged :: "log_entry list"

text \<open>The globals as the module is loaded (lines 30 to 36).\<close>

definition initial_state :: "'w \<Rightarrow> 'w state" where
  "initial_state w =
     \<lparr>NEW_CHAIN = None, CHAIN = None, INTERFACE = None, BASE_COMMAND = None,
      BLACKLIST_CACHE = None, ENABLED = True, world = w, issued = [], logged = []\<rparr>"

type_synonym 'w stmt = "'w state \<Rightarrow> error option \<times> 'w state"

text \<open>Statements in sequence: the first exception ends the sequence.\<close>

fun run_seq :: "'w stmt list \<Rightarrow> 'w stmt" where
  "run_seq [] s = (None, s)"
| "run_seq (f # fs) s =
     (case f s of
        (Some e, s') \<Rightarrow> (Some e, s')
      | (None, s') \<Rightarrow> run_seq fs s')"

subsection \<open>Running the packet-filter command\<close>

text \<open>
  \<open>_iptables(*args, ignore=False)\<close>. \<open>BASE_COMMAND + args\<close> raises \<open>TypeError\<close>
  while \<open>BASE_COMMAND\<close> is \<open>None\<close>, and \<open>subprocess\<close> raises it for an argument
  that is \<open>None\<close>; in both cases nothing is run. After a non-zero exit status, line 49
  calls \<open>exc.output.replace('\n', '. ')\<close> with \<open>str\<close> arguments: where the output is
  \<open>bytes\<close> this raises \<open>TypeError\<close>, before \<open>ignore\<close> is looked at and before
  anything is logged. Where the output is a \<open>str\<close>, the failure is swallowed when
  \<open>ignore\<close> is set, and is logged and re-raised otherwise.
\<close>

definition priv_iptables :: "'w env \<Rightarrow> string option list \<Rightarrow> bool \<Rightarrow> 'w stmt" where
  "priv_iptables env args ignore s =
     (case BASE_COMMAND s of
        None \<Rightarrow> (Some TypeError, s)
      | Some base \<Rightarrow>
          if None \<in> set args then (Some TypeError, s)
          else
            let cmd = base @ map the args;
                r = exec env (world s) cmd;
                s' = s\<lparr>world := snd r, issued := issued s @ [cmd]\<rparr>
            in if fst r then (None, s')
               else if \<not> text_output env then (Some TypeError, s')
               else if ignore then (None, s')
               else (Some CalledProcessError,
                     s'\<lparr>logged := logged s' @ [IptablesFailed (map the args)]\<rparr>))"

definition hook_args :: "string option \<Rightarrow> string option \<Rightarrow> string option list" where
  "hook_args iface chain =
     [Some ''INPUT'', Some ''-i'', iface, Some ''-p'', Some ''udp'',
      Some ''--dport'', Some ''67'', Some ''-j'', chain]"

text \<open>\<open>_clean_up(chain)\<close>: three best-effort commands.\<close>

definition priv_clean_up :: "'w env \<Rightarrow> string option \<Rightarrow> 'w stmt" where
  "priv_clean_up env chain s =
     run_seq
       [priv_iptables env (Some ''-D'' # hook_args (INTERFACE s) chain) True,
        priv_iptables env [Some ''-F'', chain] True,
        priv_iptables env [Some ''-X'', chain] True] s"

text \<open>
  \<open>init()\<close>. The probe for the \<open>-w\<close> flag is run with \<open>subprocess.check_call\<close>,
  not through \<open>_iptables\<close>; its failure is caught and only logged as a warning.
\<close>

definition init :: "'w env \<Rightarrow> 'w stmt" where
  "init env s =
     (if \<not> manage_firewall (conf env) then (None, s)
      else
        let base = [''sudo'', ''ironic-inspector-rootwrap'',
                    rootwrap_config (conf env), ''iptables''];
            s1 = s\<lparr>BLACKLIST_CACHE := None,
                   INTERFACE := Some (dnsmasq_interface (conf env)),
                   CHAIN := Some (firewall_chain (conf env)),
                   NEW_CHAIN := Some (firewall_chain (conf env) @ ''_temp''),
                   BASE_COMMAND := Some base\<rparr>;
            probe = base @ [''-w'', ''-h''];
            r = exec env (world s1) probe;
            s2 = s1\<lparr>world := snd r, issued := issued s1 @ [probe]\<rparr>;
            s3 = (if fst r then s2\<lparr>BASE_COMMAND := Some (base @ [''-w''])\<rparr> else s2)
        in run_seq
             [priv_clean_up env (CHAIN s3),
              priv_iptables env [Some ''-N'', CHAIN s3] False] s3)"

text \<open>\<open>clean_up()\<close>.\<close>

definition clean_up :: "'w env \<Rightarrow> 'w stmt" where
  "clean_up env s =
     (if \<not> manage_firewall (conf env) then (None, s)
      else run_seq [priv_clean_up env (CHAIN s), priv_clean_up env (NEW_CHAIN s)] s)"

text \<open>
  \<open>_should_enable_dhcp()\<close>: \<open>introspection_active() or node_not_found_hook\<close>, used
  as a truth value; the option is true when it is a non-empty string.
\<close>

definition priv_should_enable_dhcp :: "'w env \<Rightarrow> bool" where
  "priv_should_enable_dhcp env =
     (introspection_active env \<or>
      (case node_not_found_hook (conf env) of None \<Rightarrow> False | Some h \<Rightarrow> h \<noteq> []))"

text \<open>
  \<open>_temporary_chain(chain, main_chain)\<close> with the body of the \<open>with\<close> block. The
  generator has no \<open>try\<close> around its \<open>yield\<close>, so an exception of the body skips the
  swap.
\<close>

definition priv_temporary_chain ::
  "'w env \<Rightarrow> string option \<Rightarrow> string option \<Rightarrow> 'w stmt \<Rightarrow> 'w stmt" where
  "priv_temporary_chain env chain main_chain body s =
     run_seq
       [priv_clean_up env chain,
        priv_iptables env [Some ''-N'', chain] False,
        body,
        (\<lambda>t. priv_iptables env (Some ''-I'' # hook_args (INTERFACE t) chain) False t),
        (\<lambda>t. priv_iptables env (Some ''-D'' # hook_args (INTERFACE t) main_chain) True t),
        priv_iptables env [Some ''-F'', main_chain] True,
        priv_iptables env [Some ''-X'', main_chain] True,
        priv_iptables env [Some ''-E'', chain, main_chain] False] s"

text \<open>\<open>_disable_dhcp()\<close>.\<close>

definition priv_disable_dhcp :: "'w env \<Rightarrow> 'w stmt" where
  "priv_disable_dhcp env s =
     (if \<not> ENABLED s then (None, s)
      else
        let s1 = s\<lparr>BLACKLIST_CACHE := None\<rparr>
        in case priv_temporary_chain env (NEW_CHAIN s1) (CHAIN s1)
                  (\<lambda>t. priv_iptables env
                          [Some ''-A'', NEW_CHAIN t, Some ''-j'', Some ''REJECT''] False t) s1 of
             (Some e, s2) \<Rightarrow> (Some e, s2)
           | (None, s2) \<Rightarrow> (None, s2\<lparr>ENABLED := False\<rparr>))"

subsection \<open>The neighbour tables of the EoIB interfaces\<close>

text \<open>
  \<open>os.path.join\<close> for two components: an absolute second component replaces the
  first, and a separator is added unless the first is empty or ends with one.
\<close>

definition path_join :: "string \<Rightarrow> string \<Rightarrow> string" where
  "path_join p b =
     (if b \<noteq> [] \<and> hd b = CHR ''/'' then b
      else if p = [] \<or> last p = CHR ''/'' then p @ b
      else p @ ''/'' @ b)"

definition neighs_file :: "string \<Rightarrow> string" where
  "neighs_file interface = path_join (path_join ''/sys/class/net'' interface) ''eth/neighs''"

text \<open>
  The pattern is \<open>EMAC_REGEX + guid\<close>, that is
  \<^verbatim>\<open>EMAC=([0-9a-f]{2}(:[0-9a-f]{2}){5}) IMAC=.*\<close> followed by the GUID, and it is
  searched, not matched: the leftmost position of the text where it matches wins, and
  group 1 is the 17 characters after \<open>EMAC=\<close> there. The dot does not match a line
  feed. The functions below are that search for a GUID without metacharacters.
\<close>

definition hexdig :: "char \<Rightarrow> bool" where
  "hexdig c = (c \<in> set ''0123456789abcdef'')"

fun colon_pairs :: "nat \<Rightarrow> string \<Rightarrow> bool" where
  "colon_pairs 0 s = (s = [])"
| "colon_pairs (Suc n) s =
     (case s of
        c # a # b # r \<Rightarrow> c = CHR '':'' \<and> hexdig a \<and> hexdig b \<and> colon_pairs n r
      | _ \<Rightarrow> False)"

definition emac_shape :: "string \<Rightarrow> bool" where
  "emac_shape e =
     (case e of
        a # b # r \<Rightarrow> hexdig a \<and> hexdig b \<and> colon_pairs 5 r
      | _ \<Rightarrow> False)"

fun starts_with :: "string \<Rightarrow> string \<Rightarrow> bool" where
  "starts_with [] d = True"
| "starts_with (p # ps) [] = False"
| "starts_with (p # ps) (c # cs) = (p = c \<and> starts_with ps cs)"

definition line_feed :: char where
  "line_feed = CHR 0x0A"

text \<open>\<^verbatim>\<open>.*\<close> followed by the GUID, at the head of the text.\<close>

fun tail_match :: "string \<Rightarrow> string \<Rightarrow> bool" where
  "tail_match guid [] = starts_with guid []"
| "tail_match guid (c # cs) =
     (starts_with guid (c # cs) \<or> (c \<noteq> line_feed \<and> tail_match guid cs))"

definition match_at :: "string \<Rightarrow> string \<Rightarrow> bool" where
  "match_at guid d =
     (starts_with ''EMAC='' d \<and> emac_shape (take 17 (drop 5 d)) \<and>
      starts_with '' IMAC='' (drop 22 d) \<and> tail_match guid (drop 28 d))"

fun emac_search_literal :: "string \<Rightarrow> string \<Rightarrow> string option" where
  "emac_search_literal guid [] = None"
| "emac_search_literal guid (c # cs) =
     (if match_at guid (c # cs) then Some (take 17 (drop 5 (c # cs)))
      else emac_search_literal guid cs)"

definition regex_special :: "char \<Rightarrow> bool" where
  "regex_special c = (c \<in> set (''.^$*+?{}[]|()'' @ [CHR 0x5C]))"

text \<open>\<open>re.compile(EMAC_REGEX + guid).search(data)\<close>, with group 1 of the match.\<close>

definition emac_search :: "'w env \<Rightarrow> string \<Rightarrow> string \<Rightarrow> error + string option" where
  "emac_search env guid data =
     (if \<exists>c \<in> set guid. regex_special c then
        (case re_meta env guid data of None \<Rightarrow> Inl ReError | Some r \<Rightarrow> Inr r)
      else Inr (emac_search_literal guid data))"

text \<open>
  \<open>_ib_mac_to_rmac_mapping(blacklist_macs, ports_active)\<close>: the body of the inner
  loop, the inner loop over the ports, and the outer loop over the interfaces. An
  interface whose file cannot be read is logged and skipped. The result carries the
  \<open>LOG.error\<close> records written on the way.
\<close>

definition port_step ::
  "'w env \<Rightarrow> string \<Rightarrow> mac set \<Rightarrow> port \<Rightarrow> (mac \<rightharpoonup> mac) \<Rightarrow> error + (mac \<rightharpoonup> mac)" where
  "port_step env data blacklist_macs p m =
     (if address p \<in> blacklist_macs then
        (case extra p ''client-id'' of
           None \<Rightarrow> Inr m
         | Some client_id \<Rightarrow>
             if client_id = [] then Inr m
             else
               let guid = drop (length client_id - 23) client_id
               in case emac_search env guid data of
                    Inl e \<Rightarrow> Inl e
                  | Inr None \<Rightarrow> Inr m
                  | Inr (Some emac) \<Rightarrow> Inr (m(address p \<mapsto> emac)))
      else Inr m)"

fun ports_loop ::
  "'w env \<Rightarrow> string \<Rightarrow> mac set \<Rightarrow> port list \<Rightarrow> (mac \<rightharpoonup> mac) \<Rightarrow> error + (mac \<rightharpoonup> mac)" where
  "ports_loop env data blacklist_macs [] m = Inr m"
| "ports_loop env data blacklist_macs (p # ps) m =
     (case port_step env data blacklist_macs p m of
        Inl e \<Rightarrow> Inl e
      | Inr m' \<Rightarrow> ports_loop env data blacklist_macs ps m')"

fun ifaces_loop ::
  "'w env \<Rightarrow> mac set \<Rightarrow> port list \<Rightarrow> string list \<Rightarrow> (mac \<rightharpoonup> mac) \<Rightarrow>
   (error + (mac \<rightharpoonup> mac)) \<times> log_entry list" where
  "ifaces_loop env blacklist_macs ports_active [] m = (Inr m, [])"
| "ifaces_loop env blacklist_macs ports_active (interface # rest) m =
     (case read_file env (neighs_file interface) of
        None \<Rightarrow>
          (let r = ifaces_loop env blacklist_macs ports_active rest m
           in (fst r, NotEthernetOverInfiniBand interface # snd r))
      | Some data \<Rightarrow>
          (case ports_loop env data blacklist_macs ports_active m of
             Inl e \<Rightarrow> (Inl e, [])
           | Inr m' \<Rightarrow> ifaces_loop env blacklist_macs ports_active rest m'))"

definition priv_ib_mac_to_rmac_mapping ::
  "'w env \<Rightarrow> mac set \<Rightarrow> port list \<Rightarrow> (error + (mac \<rightharpoonup> mac)) \<times> log_entry list" where
  "priv_ib_mac_to_rmac_mapping env blacklist_macs ports_active =
     ifaces_loop env blacklist_macs ports_active (ethoib_interfaces (conf env)) Map.empty"

subsection \<open>Reconciliation\<close>

text \<open>\<open>ib_mac_mapping.get(mac) or mac\<close>.\<close>

definition remap :: "(mac \<rightharpoonup> mac) \<Rightarrow> mac \<Rightarrow> mac" where
  "remap m mac = (case m mac of None \<Rightarrow> mac | Some r \<Rightarrow> if r = [] then mac else r)"

definition drop_args :: "string option \<Rightarrow> mac \<Rightarrow> string option list" where
  "drop_args chain mac =
     [Some ''-A'', chain, Some ''-m'', Some ''mac'', Some ''--mac-source'', Some mac,
      Some ''-j'', Some ''DROP'']"

definition to_blacklist_of :: "'w env \<Rightarrow> port list \<Rightarrow> mac set" where
  "to_blacklist_of env ports_active = address ` set ports_active - active_macs env"

text \<open>The body of the \<open>with\<close> block of \<open>update_filters\<close> (lines 204 to 210).\<close>

definition blacklist_body :: "'w env \<Rightarrow> mac set \<Rightarrow> (mac \<rightharpoonup> mac) \<Rightarrow> 'w stmt" where
  "blacklist_body env to_blacklist ib_mac_mapping t =
     run_seq
       (map (\<lambda>mac. priv_iptables env (drop_args (NEW_CHAIN t) (remap ib_mac_mapping mac)) False)
            (set_iter env to_blacklist) @
        [priv_iptables env [Some ''-A'', NEW_CHAIN t, Some ''-j'', Some ''ACCEPT''] False]) t"

text \<open>
  \<open>ironic = ir_utils.get_client() if ironic is None else ironic\<close> (line 181), and the
  answer of \<open>port.list\<close> of that client (line 187).
\<close>

definition resolve_client :: "'w env \<Rightarrow> port list option option" where
  "resolve_client env = (case ironic env of None \<Rightarrow> get_client env | Some c \<Rightarrow> Some c)"

definition port_list :: "'w env \<Rightarrow> port list option" where
  "port_list env = (case resolve_client env of None \<Rightarrow> None | Some c \<Rightarrow> c)"

text \<open>
  \<open>update_filters(ironic)\<close>. The client is obtained after the assertion and before the
  lock is taken and the sessions are looked at, so a call without a client whose factory
  raises ends there, whatever the sessions are.
\<close>

definition update_filters :: "'w env \<Rightarrow> 'w stmt" where
  "update_filters env s =
     (if \<not> manage_firewall (conf env) then (None, s)
      else if INTERFACE s = None then (Some AssertionError, s)
      else if resolve_client env = None then (Some ClientError, s)
      else if \<not> priv_should_enable_dhcp env then priv_disable_dhcp env s
      else
        case port_list env of
          None \<Rightarrow> (Some ClientError, s)
        | Some ports_active \<Rightarrow>
            let to_blacklist = to_blacklist_of env ports_active;
                r = priv_ib_mac_to_rmac_mapping env to_blacklist ports_active;
                s0 = s\<lparr>logged := logged s @ snd r\<rparr>
            in case fst r of
                 Inl e \<Rightarrow> (Some e, s0)
               | Inr ib_mac_mapping \<Rightarrow>
                   if BLACKLIST_CACHE s0 \<noteq> None \<and>
                      BLACKLIST_CACHE s0 = Some to_blacklist \<and>
                      ib_mac_mapping = Map.empty
                   then (None, s0)
                   else
                     let s1 = s0\<lparr>BLACKLIST_CACHE := None\<rparr>
                     in case priv_temporary_chain env (NEW_CHAIN s1) (CHAIN s1)
                               (blacklist_body env to_blacklist ib_mac_mapping) s1 of
                          (Some e, s2) \<Rightarrow> (Some e, s2)
                        | (None, s2) \<Rightarrow>
                            (None, s2\<lparr>ENABLED := True,
                                      BLACKLIST_CACHE := Some to_blacklist\<rparr>))"

subsection \<open>The command script of a call\<close>

text \<open>
  The functions above run their commands one call of \<open>_iptables\<close> after the other.
  For the proofs the same commands are laid out as a list, each with its \<open>ignore\<close>
  flag: \<open>swap_cmds\<close> is what \<open>_temporary_chain\<close> runs around the commands of its
  body, \<open>blacklist_cmds\<close> and \<open>reject_cmds\<close> are the two bodies. The lemma
  \<open>priv_temporary_chain_cmds\<close> shows that the layout is the same program.
\<close>

type_synonym script = "(string option list \<times> bool) list"

fun run_cmds :: "'w env \<Rightarrow> script \<Rightarrow> 'w stmt" where
  "run_cmds env [] s = (None, s)"
| "run_cmds env (c # cs) s =
     (case priv_iptables env (fst c) (snd c) s of
        (Some e, s') \<Rightarrow> (Some e, s')
      | (None, s') \<Rightarrow> run_cmds env cs s')"

definition swap_cmds ::
  "string option \<Rightarrow> string option \<Rightarrow> string option \<Rightarrow> script \<Rightarrow> script" where
  "swap_cmds iface chain main_chain body =
     [(Some ''-D'' # hook_args iface chain, True),
      ([Some ''-F'', chain], True),
      ([Some ''-X'', chain], True),
      ([Some ''-N'', chain], False)] @ body @
     [(Some ''-I'' # hook_args iface chain, False),
      (Some ''-D'' # hook_args iface main_chain, True),
      ([Some ''-F'', main_chain], True),
      ([Some ''-X'', main_chain], True),
      ([Some ''-E'', chain, main_chain], False)]"

definition blacklist_cmds :: "string option \<Rightarrow> mac list \<Rightarrow> script" where
  "blacklist_cmds chain macs =
     map (\<lambda>mac. (drop_args chain mac, False)) macs @
     [([Some ''-A'', chain, Some ''-j'', Some ''ACCEPT''], False)]"

definition reject_cmds :: "string option \<Rightarrow> script" where
  "reject_cmds chain = [([Some ''-A'', chain, Some ''-j'', Some ''REJECT''], False)]"

text \<open>The command lines a script hands to \<open>subprocess\<close>.\<close>

definition command_lines :: "string list \<Rightarrow> script \<Rightarrow> string list list" where
  "command_lines base cs = map (\<lambda>c. base @ map the (fst c)) cs"

definition same_globals :: "'w state \<Rightarrow> 'w state \<Rightarrow> bool" where
  "same_globals s s' =
     (NEW_CHAIN s' = NEW_CHAIN s \<and> CHAIN s' = CHAIN s \<and> INTERFACE s' = INTERFACE s \<and>
      BASE_COMMAND s' = BASE_COMMAND s \<and> BLACKLIST_CACHE s' = BLACKLIST_CACHE s \<and>
      ENABLED s' = ENABLED s)"

text \<open>
  The order of a chain swap as the specification words it (4.4, step 5): reset the
  temporary chain and create it, populate it, hook it into the input chain, unhook the
  primary chain, flush and delete the primary chain, rename the temporary chain. The
  lines are the arguments that follow the base command.
\<close>

definition hook_rule :: "string \<Rightarrow> string \<Rightarrow> string list" where
  "hook_rule iface chain =
     [''INPUT'', ''-i'', iface, ''-p'', ''udp'', ''--dport'', ''67'', ''-j'', chain]"

definition swap_sequence ::
  "string \<Rightarrow> string \<Rightarrow> string \<Rightarrow> string list list \<Rightarrow> string list list" where
  "swap_sequence iface chain main_chain body =
     [''-D'' # hook_rule iface chain, [''-F'', chain], [''-X'', chain], [''-N'', chain]] @
     body @
     [''-I'' # hook_rule iface chain,
      ''-D'' # hook_rule iface main_chain,
      [''-F'', main_chain],
      [''-X'', main_chain],
      [''-E'', chain, main_chain]]"

definition drop_rule :: "string \<Rightarrow> mac \<Rightarrow> string list" where
  "drop_rule chain mac = [''-A'', chain, ''-m'', ''mac'', ''--mac-source'', mac, ''-j'', ''DROP'']"

definition accept_rule :: "string \<Rightarrow> string list" where
  "accept_rule chain = [''-A'', chain, ''-j'', ''ACCEPT'']"

definition reject_rule :: "string \<Rightarrow> string list" where
  "reject_rule chain = [''-A'', chain, ''-j'', ''REJECT'']"

subsection \<open>Example environments\<close>

text \<open>
  A configuration with firewall management on and the default names, an outside world
  without state in which every command succeeds, and a call environment with nothing
  registered and no session active: the caller passes no client (as the periodic task
  does), the factory returns one, and the output of a failed command is text. The
  examples below vary them.
\<close>

definition example_conf :: config where
  "example_conf =
     \<lparr>manage_firewall = True, dnsmasq_interface = ''br-ctlplane'',
      firewall_chain = ''ironic-inspector'', ethoib_interfaces = [],
      node_not_found_hook = None, rootwrap_config = ''/etc/rootwrap.conf''\<rparr>"

definition idle_env :: "unit env" where
  "idle_env =
     \<lparr>conf = example_conf, exec = (\<lambda>w cmd. (True, w)), text_output = True,
      introspection_active = False, active_macs = {}, ironic = None,
      get_client = Some (Some []), read_file = Map.empty,
      re_meta = (\<lambda>guid data. None), set_iter = (\<lambda>S. [])\<rparr>"

text \<open>The state that \<open>init\<close> leaves with \<open>example_conf\<close> when the probe succeeds.\<close>

definition example_base :: "string list" where
  "example_base = [''sudo'', ''ironic-inspector-rootwrap'', ''/etc/rootwrap.conf'', ''iptables'', ''-w'']"

definition ready_state :: "'w \<Rightarrow> 'w state" where
  "ready_state w =
     \<lparr>NEW_CHAIN = Some ''ironic-inspector_temp'', CHAIN = Some ''ironic-inspector'',
      INTERFACE = Some ''br-ctlplane'', BASE_COMMAND = Some example_base,
      BLACKLIST_CACHE = None, ENABLED = True, world = w, issued = [], logged = []\<rparr>"

text \<open>
  One registered port while a session is active (\<open>busy_env\<close>); the same with a
  packet filter that refuses every best-effort command (\<open>strict_env\<close>), as it does
  when the chain to clean up is not there; and with one that refuses to create a chain
  (\<open>broken_env\<close>).
\<close>

definition example_mac :: mac where
  "example_mac = ''52:54:00:12:34:56''"

definition example_port :: port where
  "example_port = \<lparr>address = example_mac, extra = Map.empty\<rparr>"

definition busy_env :: "unit env" where
  "busy_env =
     idle_env\<lparr>introspection_active := True, get_client := Some (Some [example_port]),
              set_iter := (\<lambda>S. filter (\<lambda>m. m \<in> S) [example_mac])\<rparr>"

definition strict_env :: "unit env" where
  "strict_env =
     busy_env\<lparr>exec := (\<lambda>w cmd. (''-D'' \<notin> set cmd \<and> ''-F'' \<notin> set cmd \<and> ''-X'' \<notin> set cmd, w))\<rparr>"

definition broken_env :: "unit env" where
  "broken_env = busy_env\<lparr>exec := (\<lambda>w cmd. (''-N'' \<notin> set cmd, w))\<rparr>"

definition example_swap :: "string list list \<Rightarrow> string list list" where
  "example_swap body =
     map ((@) example_base)
       (swap_sequence ''br-ctlplane'' ''ironic-inspector_temp'' ''ironic-inspector'' body)"

text \<open>The states after an idle call and after a call that cached the example blacklist.\<close>

definition disabled_state :: "unit state" where
  "disabled_state =
     (ready_state ())\<lparr>ENABLED := False,
        issued := example_swap [reject_rule ''ironic-inspector_temp'']\<rparr>"

definition cached_state :: "unit state" where
  "cached_state = (ready_state ())\<lparr>BLACKLIST_CACHE := Some {example_mac}\<rparr>"

text \<open>
  An InfiniBand port: its client identifier ends in the GUID, and the neighbour table of
  \<open>ib0\<close> has one line that maps the GUID to an Ethernet address.
\<close>

definition ib_guid :: string where
  "ib_guid = ''7c:fe:90:03:00:29:24:4f''"

definition ib_client_id :: string where
  "ib_client_id = ''ff:00:00:00:00:00:02:00:00:02:c9:00:7c:fe:90:03:00:29:24:4f''"

definition neigh_line :: "string \<Rightarrow> string" where
  "neigh_line emac =
     ''EMAC='' @ emac @ '' IMAC=97:fe:80:00:00:00:00:00:00:7c:fe:90:03:00:29:24:4f'' @ [line_feed]"

definition emac1 :: mac where
  "emac1 = ''02:00:00:61:00:02''"

definition emac2 :: mac where
  "emac2 = ''02:00:02:97:00:01''"

definition ib_mac :: mac where
  "ib_mac = ''7c:fe:90:29:24:4f''"

text \<open>
  An environment with that port registered under the address \<open>a\<close>, a session
  active, and the given EoIB interfaces and files.
\<close>

definition ib_port :: "mac \<Rightarrow> port" where
  "ib_port a = \<lparr>address = a, extra = [''client-id'' \<mapsto> ib_client_id]\<rparr>"

definition eoib_env :: "string list \<Rightarrow> (string \<rightharpoonup> string) \<Rightarrow> mac \<Rightarrow> unit env" where
  "eoib_env interfaces files a =
     idle_env\<lparr>conf := example_conf\<lparr>ethoib_interfaces := interfaces\<rparr>,
              introspection_active := True, get_client := Some (Some [ib_port a]),
              read_file := files, set_iter := (\<lambda>S. filter (\<lambda>m. m \<in> S) [a])\<rparr>"

text \<open>The inventory holds the port under the very address the neighbour table gives.\<close>

definition self_env :: "unit env" where
  "self_env = eoib_env [''ib0''] [''/sys/class/net/ib0/eth/neighs'' \<mapsto> neigh_line emac1] emac1"

text \<open>The state after a call in \<open>broken_env\<close>, which fails when it creates the chain.\<close>

definition broken_state :: "unit state" where
  "broken_state =
     (ready_state ())\<lparr>
        issued := map ((@) example_base)
          [''-D'' # hook_rule ''br-ctlplane'' ''ironic-inspector_temp'',
           [''-F'', ''ironic-inspector_temp''], [''-X'', ''ironic-inspector_temp''],
           [''-N'', ''ironic-inspector_temp'']],
        logged := [IptablesFailed [''-N'', ''ironic-inspector_temp'']]\<rparr>"

text \<open>
  The environment with the EoIB interfaces whose neighbour table cannot be read taken
  out of the configuration, and equality of two states in everything but the log.
\<close>

definition without_unreadable :: "'w env \<Rightarrow> 'w env" where
  "without_unreadable env =
     env\<lparr>conf := (conf env)\<lparr>ethoib_interfaces :=
       filter (\<lambda>i. read_file env (neighs_file i) \<noteq> None) (ethoib_interfaces (conf env))\<rparr>\<rparr>"

definition same_but_log :: "'w state \<Rightarrow> 'w state \<Rightarrow> bool" where
  "same_but_log s t =
     (same_globals s t \<and> world t = world s \<and> issued t = issued s)"

text \<open>
  Two EoIB interfaces are configured; the first has no neighbour table.
\<close>

definition skip_env :: "unit env" where
  "skip_env =
     eoib_env [''eth0'', ''ib0''] [''/sys/class/net/ib0/eth/neighs'' \<mapsto> neigh_line emac1] ib_mac"

text \<open>
  The specification's words for a match: the text has a line of the form
  \<^verbatim>\<open>EMAC=<mac> IMAC=<mac-containing-guid>\<close>, that is \<open>EMAC=\<close>, an Ethernet address in
  lower-case hexadecimal, \<open> IMAC=\<close>, and the GUID further on in the same line.
\<close>

definition neigh_line_for :: "string \<Rightarrow> mac \<Rightarrow> string \<Rightarrow> bool" where
  "neigh_line_for guid e d =
     (\<exists>pre x post. d = pre @ ''EMAC='' @ e @ '' IMAC='' @ x @ guid @ post \<and>
        emac_shape e \<and> line_feed \<notin> set x)"

text \<open>
  \<open>table_entry\<close>: some configured interface has a readable table with such a line for
  the GUID of a port registered under the address \<open>a\<close>.
\<close>

definition table_entry :: "'w env \<Rightarrow> port list \<Rightarrow> mac \<Rightarrow> mac \<Rightarrow> bool" where
  "table_entry env ports a e =
     (\<exists>i \<in> set (ethoib_interfaces (conf env)). \<exists>d.
        read_file env (neighs_file i) = Some d \<and>
        (\<exists>p \<in> set ports. address p = a \<and>
           (\<exists>cid. extra p ''client-id'' = Some cid \<and> cid \<noteq> [] \<and>
              neigh_line_for (drop (length cid - 23) cid) e d)))"

text \<open>Group 1 at every position where the pattern matches, from left to right.\<close>

fun all_matches :: "string \<Rightarrow> string \<Rightarrow> mac list" where
  "all_matches guid [] = []"
| "all_matches guid (c # cs) =
     (if match_at guid (c # cs) then [take 17 (drop 5 (c # cs))] else []) @
     all_matches guid cs"

text \<open>
  An InfiniBand port under its own address, first with one EoIB interface, then with
  two whose tables give different Ethernet addresses for the GUID.
\<close>

definition one_env :: "unit env" where
  "one_env = eoib_env [''ib0''] [''/sys/class/net/ib0/eth/neighs'' \<mapsto> neigh_line emac1] ib_mac"

definition two_env :: "unit env" where
  "two_env =
     eoib_env [''ib0'', ''ib1'']
       [''/sys/class/net/ib0/eth/neighs'' \<mapsto> neigh_line emac1,
        ''/sys/class/net/ib1/eth/neighs'' \<mapsto> neigh_line emac2] ib_mac"

text \<open>
  The packet filter itself is outside the repository, and what the DHCP hook points to
  at an instant is a fact about its tables. The model below follows the manual page
  iptables(8) for the operations the module uses: the rules of the built-in input
  chain, newest first where inserted, and the user chains by name. A rule is the list of
  arguments after the chain name; the chain it jumps to is its last argument. Creating a
  chain that exists, appending to, flushing or renaming one that does not, deleting a
  rule that is not there, and deleting a chain that is not empty or still referenced all
  fail and change nothing.
\<close>

record table =
  input :: "string list list"
  chains :: "string \<rightharpoonup> string list list"

definition refers :: "string list \<Rightarrow> string \<Rightarrow> bool" where
  "refers r c = (r \<noteq> [] \<and> last r = c)"

definition tbl_cmd :: "table \<Rightarrow> string list \<Rightarrow> bool \<times> table" where
  "tbl_cmd t args =
     (case args of
        [] \<Rightarrow> (False, t)
      | op # rest \<Rightarrow>
          if op = ''-h'' then (True, t)
          else if op = ''-N'' then
            (case rest of
               [c] \<Rightarrow> if chains t c = None then (True, t\<lparr>chains := (chains t)(c \<mapsto> [])\<rparr>)
                       else (False, t)
             | _ \<Rightarrow> (False, t))
          else if op = ''-A'' then
            (case rest of
               c # rule \<Rightarrow>
                 (case chains t c of
                    Some rs \<Rightarrow> (True, t\<lparr>chains := (chains t)(c \<mapsto> rs @ [rule])\<rparr>)
                  | None \<Rightarrow> (False, t))
             | _ \<Rightarrow> (False, t))
          else if op = ''-I'' then
            (case rest of
               c # rule \<Rightarrow>
                 if c = ''INPUT'' \<and> rule \<noteq> [] \<and> chains t (last rule) \<noteq> None
                 then (True, t\<lparr>input := rule # input t\<rparr>)
                 else (False, t)
             | _ \<Rightarrow> (False, t))
          else if op = ''-D'' then
            (case rest of
               c # rule \<Rightarrow>
                 if c = ''INPUT'' \<and> rule \<in> set (input t)
                 then (True, t\<lparr>input := remove1 rule (input t)\<rparr>)
                 else (False, t)
             | _ \<Rightarrow> (False, t))
          else if op = ''-F'' then
            (case rest of
               [c] \<Rightarrow> if chains t c \<noteq> None then (True, t\<lparr>chains := (chains t)(c \<mapsto> [])\<rparr>)
                       else (False, t)
             | _ \<Rightarrow> (False, t))
          else if op = ''-X'' then
            (case rest of
               [c] \<Rightarrow> if chains t c = Some [] \<and> list_all (\<lambda>r. \<not> refers r c) (input t)
                       then (True, t\<lparr>chains := (chains t)(c := None)\<rparr>)
                       else (False, t)
             | _ \<Rightarrow> (False, t))
          else if op = ''-E'' then
            (case rest of
               [old, new] \<Rightarrow>
                 (case chains t old of
                    Some rs \<Rightarrow>
                      if chains t new = None
                      then (True, t\<lparr>chains := (chains t)(old := None, new \<mapsto> rs),
                                     input := map (\<lambda>r. if refers r old
                                                         then butlast r @ [new] else r)
                                                  (input t)\<rparr>)
                      else (False, t)
                  | None \<Rightarrow> (False, t))
             | _ \<Rightarrow> (False, t))
          else (False, t))"

text \<open>The tables after a list of commands, and a property that holds before, between and after them.\<close>

fun tbl_run :: "table \<Rightarrow> string list list \<Rightarrow> table" where
  "tbl_run t [] = t"
| "tbl_run t (c # cs) = tbl_run (snd (tbl_cmd t c)) cs"

fun always :: "(table \<Rightarrow> bool) \<Rightarrow> table \<Rightarrow> string list list \<Rightarrow> bool" where
  "always P t [] = P t"
| "always P t (c # cs) = (P t \<and> always P (snd (tbl_cmd t c)) cs)"

text \<open>
  The chains that the DHCP hooks of the interface point to, in the order of the input
  chain; a chain is fully populated when it ends in the rule that decides every packet.
\<close>

definition hook_match :: "string \<Rightarrow> string list" where
  "hook_match iface = [''-i'', iface, ''-p'', ''udp'', ''--dport'', ''67'', ''-j'']"

definition hook_targets :: "string \<Rightarrow> table \<Rightarrow> string list" where
  "hook_targets iface t =
     map last (filter (\<lambda>r. r \<noteq> [] \<and> butlast r = hook_match iface) (input t))"

definition fully_populated :: "table \<Rightarrow> string \<Rightarrow> bool" where
  "fully_populated t c =
     (case chains t c of
        None \<Rightarrow> False
      | Some rs \<Rightarrow> rs \<noteq> [] \<and> (last rs = [''-j'', ''ACCEPT''] \<or> last rs = [''-j'', ''REJECT'']))"

text \<open>
  The tables as a completed swap leaves them: the interface has exactly one DHCP hook,
  which points to the fully populated primary chain, and no other rule of the input
  chain jumps to the primary or to the temporary chain. The input chain may hold any
  other rules.
\<close>

definition settled :: "string \<Rightarrow> string \<Rightarrow> string \<Rightarrow> table \<Rightarrow> bool" where
  "settled iface new main_chain t =
     (hook_targets iface t = [main_chain] \<and> fully_populated t main_chain \<and>
      list_all (\<lambda>r. refers r main_chain \<or> refers r new \<longrightarrow> r = hook_match iface @ [main_chain])
        (input t))"

text \<open>An environment whose commands act on the tables; the base command has five words.\<close>

definition table_env :: "unit env \<Rightarrow> table env" where
  "table_env env =
     \<lparr>conf = conf env,
      exec = (\<lambda>t cmd. tbl_cmd t (drop 5 cmd)), text_output = text_output env,
      introspection_active = introspection_active env, active_macs = active_macs env,
      ironic = ironic env, get_client = get_client env,
      read_file = read_file env, re_meta = re_meta env, set_iter = set_iter env\<rparr>"

text \<open>
  The tables of a machine that has never run the service, after \<open>init\<close>, and after a
  completed swap that disabled DHCP; the last again with a rule of another service
  ahead of the hook.
\<close>

definition empty_table :: table where
  "empty_table = \<lparr>input = [], chains = Map.empty\<rparr>"

definition fresh_table :: table where
  "fresh_table = \<lparr>input = [], chains = [''ironic-inspector'' \<mapsto> []]\<rparr>"

definition settled_table :: table where
  "settled_table =
     \<lparr>input = [hook_match ''br-ctlplane'' @ [''ironic-inspector'']],
      chains = [''ironic-inspector'' \<mapsto> [[''-j'', ''REJECT'']]]\<rparr>"

definition shared_table :: table where
  "shared_table =
     settled_table\<lparr>input := [''-p'', ''tcp'', ''--dport'', ''22'', ''-j'', ''ACCEPT''] #
                               input settled_table\<rparr>"

text \<open>
  A script run on the tables: the property holds before, between and after the
  commands, and every command that is not best-effort succeeds.
\<close>

fun steps_ok :: "(table \<Rightarrow> bool) \<Rightarrow> table \<Rightarrow> (string list \<times> bool) list \<Rightarrow> bool" where
  "steps_ok P t [] = P t"
| "steps_ok P t (c # cs) =
     (P t \<and> (snd c \<or> fst (tbl_cmd t (fst c))) \<and> steps_ok P (snd (tbl_cmd t (fst c))) cs)"

definition hooked_ok :: "string \<Rightarrow> string \<Rightarrow> string \<Rightarrow> table \<Rightarrow> bool" where
  "hooked_ok iface new main_chain t =
     (hook_targets iface t \<in> {[main_chain], [new, main_chain], [new]} \<and>
      list_all (fully_populated t) (hook_targets iface t))"

definition drop_match :: "mac \<Rightarrow> string list" where
  "drop_match mac = [''-m'', ''mac'', ''--mac-source'', mac, ''-j'', ''DROP'']"

definition swap_script ::
  "string \<Rightarrow> string \<Rightarrow> string \<Rightarrow> string list list \<Rightarrow> (string list \<times> bool) list" where
  "swap_script iface new main_chain rules =
     [(''-D'' # hook_rule iface new, True), ([''-F'', new], True), ([''-X'', new], True),
      ([''-N'', new], False)] @
     map (\<lambda>r. (''-A'' # new # r, False)) rules @
     [(''-I'' # hook_rule iface new, False), (''-D'' # hook_rule iface main_chain, True),
      ([''-F'', main_chain], True), ([''-X'', main_chain], True),
      ([''-E'', new, main_chain], False)]"

subsection \<open>The commands of a call, run in order\<close>

text \<open>
  What a call does to the packet filter, told without the functions of the module. The
  module passes \<open>ignore=True\<close> exactly with the commands that delete a rule (\<open>-D\<close>),
  flush a chain (\<open>-F\<close>) or delete a chain (\<open>-X\<close>): these are best-effort. A line is
  the list of arguments after the base command. \<open>run_lines\<close> is the outside world after
  the lines have been run in order; \<open>first_failure\<close> is the position of the first line
  that exits with a non-zero status without being best-effort, if there is one.
\<close>

definition best_effort :: "string list \<Rightarrow> bool" where
  "best_effort args =
     (case args of [] \<Rightarrow> False | opt # rest \<Rightarrow> opt = ''-D'' \<or> opt = ''-F'' \<or> opt = ''-X'')"

fun run_lines :: "'w env \<Rightarrow> string list \<Rightarrow> 'w \<Rightarrow> string list list \<Rightarrow> 'w" where
  "run_lines env base w [] = w"
| "run_lines env base w (args # rest) =
     run_lines env base (snd (exec env w (base @ args))) rest"

fun first_failure :: "'w env \<Rightarrow> string list \<Rightarrow> 'w \<Rightarrow> string list list \<Rightarrow> nat option" where
  "first_failure env base w [] = None"
| "first_failure env base w (args # rest) =
     (if fst (exec env w (base @ args)) \<or> best_effort args
      then map_option Suc (first_failure env base (snd (exec env w (base @ args))) rest)
      else Some 0)"

text \<open>
  Running the lines from a state, where the output of a failed command is text: either
  every line has been run, or the lines up to the first failure that is not
  best-effort, which is logged and raised.
\<close>

definition run_outcome ::
  "'w env \<Rightarrow> string list \<Rightarrow> string list list \<Rightarrow> 'w state \<Rightarrow> error option \<times> 'w state" where
  "run_outcome env base lines s =
     (case first_failure env base (world s) lines of
        None \<Rightarrow>
          (None, s\<lparr>world := run_lines env base (world s) lines,
                   issued := issued s @ map ((@) base) lines\<rparr>)
      | Some k \<Rightarrow>
          (Some CalledProcessError,
           s\<lparr>world := run_lines env base (world s) (take (Suc k) lines),
             issued := issued s @ map ((@) base) (take (Suc k) lines),
             logged := logged s @ [IptablesFailed (lines ! k)]\<rparr>))"

text \<open>
  An idle call without a client whose factory raises, an idle call on a packet filter
  that refuses to create a chain, and the state after a call in \<open>broken_env\<close> that
  found DHCP marked disabled.
\<close>

definition clientless_env :: "unit env" where
  "clientless_env = idle_env\<lparr>get_client := None\<rparr>"

definition broken_idle_env :: "unit env" where
  "broken_idle_env = idle_env\<lparr>exec := (\<lambda>w cmd. (''-N'' \<notin> set cmd, w))\<rparr>"

definition stale_state :: "unit state" where
  "stale_state =
     disabled_state\<lparr>
        issued := issued disabled_state @ issued broken_state,
        logged := [IptablesFailed [''-N'', ''ironic-inspector_temp'']]\<rparr>"

subsection \<open>The addresses that the loops come across\<close>

text \<open>
  The Ethernet addresses that the two loops of \<open>_ib_mac_to_rmac_mapping\<close> come across
  for the ports registered under one address, in the order of the loops: the configured
  interfaces one after the other (those whose table can be read), and for each table
  the ports of the inventory in their order. A port with a client identifier
  contributes, for a table, the address of the first line of the table that has the
  form \<^verbatim>\<open>EMAC=<mac> IMAC=<...guid>\<close> for its GUID, if there is one. \<open>port_hits\<close>
  is the same with the search that the code runs; \<open>last_or\<close> is what repeated
  assignment to one key of a dictionary leaves.
\<close>

definition port_entry :: "string \<Rightarrow> port \<Rightarrow> mac list" where
  "port_entry d p =
     (case extra p ''client-id'' of
        None \<Rightarrow> []
      | Some cid \<Rightarrow>
          if cid = [] then [] else take 1 (all_matches (drop (length cid - 23) cid) d))"

definition entries :: "'w env \<Rightarrow> port list \<Rightarrow> mac \<Rightarrow> mac list" where
  "entries env ports a =
     concat (map (\<lambda>i. case read_file env (neighs_file i) of
                         None \<Rightarrow> []
                       | Some d \<Rightarrow> concat (map (port_entry d) (filter (\<lambda>p. address p = a) ports)))
               (ethoib_interfaces (conf env)))"

definition port_hits :: "'w env \<Rightarrow> string \<Rightarrow> port \<Rightarrow> mac list" where
  "port_hits env d p =
     (case extra p ''client-id'' of
        None \<Rightarrow> []
      | Some cid \<Rightarrow>
          if cid = [] then []
          else (case emac_search env (drop (length cid - 23) cid) d of
                  Inr (Some e) \<Rightarrow> [e]
                | _ \<Rightarrow> []))"

definition last_or :: "'a list \<Rightarrow> 'a option \<Rightarrow> 'a option" where
  "last_or xs x = (if xs = [] then x else Some (last xs))"

section \<open>The node processing orchestrator (specification 4.3)\<close>

text \<open>
  Modelled from the spec: the function that runs a session (\<open>process._process_node\<close>,
  the specification's \<open>runSession\<close>) is not among the sources; only its tests are
  (\<open>test_process.py\<close>, class \<open>TestProcessNode\<close>). The definitions of this section
  follow the words of section 4.3 and of the retry policy of section 5; where a test of
  the repository shows what the run does to the inventory, the model does what the test
  expects, and the definition says so. The inventory client is scripted, as the mocks of
  the tests are: the answer to the k-th call of each operation is given, and so is the
  k-th reading of the clock. The trace counts the calls and records what was committed.
\<close>

datatype patch_op = Add | Remove | Replace

record patch =
  op :: patch_op
  path :: string
  val :: "string option"

record node =
  uuid :: string
  properties :: "string \<rightharpoonup> string"
  driver_info :: "string \<rightharpoonup> string"

record normalized_record =
  macs :: "mac list"
  ipmi_address :: "string option"
  cpus :: string
  cpu_arch :: string
  memory_mb :: string
  local_gb :: string

record node_info =
  session_uuid :: string
  started_at :: int
  new_ipmi_credentials :: "(string \<times> string) option"

datatype 'a reply = Reply 'a | Conflict | Failure string

record client =
  create_port :: "nat \<Rightarrow> string reply"
  update_node :: "nat \<Rightarrow> unit reply"
  update_port :: "nat \<Rightarrow> unit reply"
  set_power_state :: "nat \<Rightarrow> unit reply"
  probe_boot_device :: "nat \<Rightarrow> unit reply"
  get_node :: "nat \<Rightarrow> string option"
  clock :: "nat \<Rightarrow> int"

record settings =
  max_attempts :: nat
  credential_attempts :: nat
  timeout :: int
  overwrite_existing :: bool
  pipeline :: "(mac \<times> string) list \<Rightarrow> string + patch list \<times> (mac \<times> patch list) list"

record trace =
  port_calls :: nat
  update_calls :: nat
  node_updates :: "patch list list"
  port_update_calls :: nat
  port_updates :: "(string \<times> patch list) list"
  power_calls :: nat
  probe_calls :: nat
  polls :: nat
  clock_reads :: nat
  finished :: "string option list"

definition no_calls :: trace where
  "no_calls =
     \<lparr>port_calls = 0, update_calls = 0, node_updates = [], port_update_calls = 0,
      port_updates = [], power_calls = 0, probe_calls = 0, polls = 0, clock_reads = 0,
      finished = []\<rparr>"

text \<open>
  Modelled from the spec: a run ends in a reported error, which carries its message and
  has been recorded on the session, or in any other exception, which propagates.
\<close>

datatype failure = Reported string | Raised string

type_synonym phase = "trace \<Rightarrow> failure option \<times> trace"

fun phases :: "phase list \<Rightarrow> phase" where
  "phases [] tr = (None, tr)"
| "phases (f # fs) tr =
     (case f tr of
        (Some e, tr') \<Rightarrow> (Some e, tr')
      | (None, tr') \<Rightarrow> phases fs tr')"

text \<open>
  Modelled from the spec: ``every inventory mutation that can report an
  optimistic-concurrency conflict is retried with a bounded attempt count and short
  delay between attempts; any other failure propagates immediately''. The first argument
  is the number of attempts left, the third the number of calls made so far; the result
  is the last answer and the number of calls made.
\<close>

fun retry_on_conflict :: "nat \<Rightarrow> (nat \<Rightarrow> 'a reply) \<Rightarrow> nat \<Rightarrow> 'a reply \<times> nat" where
  "retry_on_conflict 0 answer k = (Conflict, k)"
| "retry_on_conflict (Suc n) answer k =
     (case answer k of
        Conflict \<Rightarrow> if n = 0 then (Conflict, Suc k) else retry_on_conflict n answer (Suc k)
      | r \<Rightarrow> (r, Suc k))"

text \<open>Modelled from the spec: one node update, retried on conflict.\<close>

definition update_node_retry :: "settings \<Rightarrow> client \<Rightarrow> patch list \<Rightarrow> phase" where
  "update_node_retry cfg cl patches tr =
     (let r = retry_on_conflict (max_attempts cfg) (update_node cl) (update_calls tr);
          tr' = tr\<lparr>update_calls := snd r\<rparr>
      in case fst r of
           Reply u \<Rightarrow> (None, tr'\<lparr>node_updates := node_updates tr' @ [patches]\<rparr>)
         | Conflict \<Rightarrow> (Some (Raised ''Conflict''), tr')
         | Failure d \<Rightarrow> (Some (Raised d), tr'))"

definition update_port_retry :: "settings \<Rightarrow> client \<Rightarrow> string \<Rightarrow> patch list \<Rightarrow> phase" where
  "update_port_retry cfg cl port_uuid patches tr =
     (let r = retry_on_conflict (max_attempts cfg) (update_port cl) (port_update_calls tr);
          tr' = tr\<lparr>port_update_calls := snd r\<rparr>
      in case fst r of
           Reply u \<Rightarrow> (None, tr'\<lparr>port_updates := port_updates tr' @ [(port_uuid, patches)]\<rparr>)
         | Conflict \<Rightarrow> (Some (Raised ''Conflict''), tr')
         | Failure d \<Rightarrow> (Some (Raised d), tr'))"

text \<open>
  Modelled from the spec (step 1): ``for each MAC in \<open>record.macs\<close>, attempt port
  creation; a per-MAC conflict (port already exists) is tolerated, logged, and that MAC
  is excluded from the port set passed downstream''. The result is the port set.
\<close>

fun port_sync :: "client \<Rightarrow> mac list \<Rightarrow> trace \<Rightarrow> (failure + (mac \<times> string) list) \<times> trace" where
  "port_sync cl [] tr = (Inr [], tr)"
| "port_sync cl (m # ms) tr =
     (let tr' = tr\<lparr>port_calls := Suc (port_calls tr)\<rparr>
      in case create_port cl (port_calls tr) of
           Failure d \<Rightarrow> (Inl (Raised d), tr')
         | Conflict \<Rightarrow> port_sync cl ms tr'
         | Reply port_uuid \<Rightarrow>
             (case port_sync cl ms tr' of
                (Inl e, tr'') \<Rightarrow> (Inl e, tr'')
              | (Inr ports, tr'') \<Rightarrow> (Inr ((m, port_uuid) # ports), tr'')))"

text \<open>
  Modelled from the spec (4.2 and step 2): the baseline patch projects the four hardware
  facts into property patches, ``each entry suppressed when the node already holds an
  equal value unless an always-overwrite policy is enabled''.
\<close>

definition baseline_patch :: "settings \<Rightarrow> node \<Rightarrow> normalized_record \<Rightarrow> patch list" where
  "baseline_patch cfg nd record =
     map (\<lambda>kv. \<lparr>op = Add, path = ''/properties/'' @ fst kv, val = Some (snd kv)\<rparr>)
       (filter (\<lambda>kv. overwrite_existing cfg \<or> properties nd (fst kv) \<noteq> Some (snd kv))
          [(''cpus'', cpus record), (''cpu_arch'', cpu_arch record),
           (''memory_mb'', memory_mb record), (''local_gb'', local_gb record)])"

text \<open>
  Modelled from the spec (steps 2 and 3, and 4.2: ``all patches from a pipeline run are
  collected and committed together''): the baseline property patch and the node patches
  of the hook pipeline are committed in one node update, the first of the run; then
  each per-port patch is applied. Section 4.3 words this as two node updates; the tests
  show one: \<open>test_hook_patches\<close> expects \<open>node.update\<close> to be called with
  \<open>patch_before + node_patches\<close>, and \<open>test_power_off_timeout\<close> and
  \<open>test_power_off_failed\<close> expect it to have been called once, with \<open>patch_before\<close>,
  when the power-off fails. An error of the pipeline is an expected one: it is recorded
  verbatim on the session.
\<close>

fun port_patches :: "settings \<Rightarrow> client \<Rightarrow> (mac \<times> string) list \<Rightarrow> (mac \<times> patch list) list \<Rightarrow> phase" where
  "port_patches cfg cl ports [] tr = (None, tr)"
| "port_patches cfg cl ports (mp # rest) tr =
     (case map_of ports (fst mp) of
        None \<Rightarrow> (Some (Raised ''KeyError''), tr)
      | Some port_uuid \<Rightarrow>
          (case update_port_retry cfg cl port_uuid (snd mp) tr of
             (Some e, tr') \<Rightarrow> (Some e, tr')
           | (None, tr') \<Rightarrow> port_patches cfg cl ports rest tr'))"

definition hook_phase ::
  "settings \<Rightarrow> client \<Rightarrow> node \<Rightarrow> normalized_record \<Rightarrow> (mac \<times> string) list \<Rightarrow> phase" where
  "hook_phase cfg cl nd record ports tr =
     (case pipeline cfg ports of
        Inl msg \<Rightarrow> (Some (Reported msg), tr\<lparr>finished := finished tr @ [Some msg]\<rparr>)
      | Inr out \<Rightarrow>
          phases [update_node_retry cfg cl (baseline_patch cfg nd record @ fst out),
                  port_patches cfg cl ports (snd out)] tr)"

text \<open>
  Modelled from the spec (step 4): patch \<open>driver_info\<close> with the new credentials
  (``defaulting \<open>ipmi_address\<close> from the discovered value if previously absent''), then
  ``poll a validation probe against the node up to a bounded attempt count, swallowing
  failures between attempts; exhausting attempts finalizes with an error''.
\<close>

definition credentials_patch :: "node \<Rightarrow> normalized_record \<Rightarrow> string \<times> string \<Rightarrow> patch list" where
  "credentials_patch nd record creds =
     [\<lparr>op = Add, path = ''/driver_info/ipmi_username'', val = Some (fst creds)\<rparr>,
      \<lparr>op = Add, path = ''/driver_info/ipmi_password'', val = Some (snd creds)\<rparr>] @
     (case (driver_info nd ''ipmi_address'', ipmi_address record) of
        (None, Some a) \<Rightarrow> [\<lparr>op = Add, path = ''/driver_info/ipmi_address'', val = Some a\<rparr>]
      | _ \<Rightarrow> [])"

definition credentials_message :: "string \<Rightarrow> string" where
  "credentials_message u =
     ''Failed to validate updated IPMI credentials for node '' @ u @
     '', node might require maintenance''"

fun validate_credentials :: "nat \<Rightarrow> client \<Rightarrow> node_info \<Rightarrow> phase" where
  "validate_credentials 0 cl session tr =
     (Some (Reported (credentials_message (session_uuid session))),
      tr\<lparr>finished := finished tr @ [Some (credentials_message (session_uuid session))]\<rparr>)"
| "validate_credentials (Suc n) cl session tr =
     (let tr' = tr\<lparr>probe_calls := Suc (probe_calls tr)\<rparr>
      in case probe_boot_device cl (probe_calls tr) of
           Reply u \<Rightarrow> (None, tr')
         | _ \<Rightarrow> validate_credentials n cl session tr')"

definition credential_rotation ::
  "settings \<Rightarrow> client \<Rightarrow> node \<Rightarrow> normalized_record \<Rightarrow> node_info \<Rightarrow> phase" where
  "credential_rotation cfg cl nd record session tr =
     (case new_ipmi_credentials session of
        None \<Rightarrow> (None, tr)
      | Some creds \<Rightarrow>
          phases [update_node_retry cfg cl (credentials_patch nd record creds),
                  validate_credentials (credential_attempts cfg) cl session] tr)"

text \<open>
  Modelled from the spec (step 5): ``command power off; any non-conflict failure
  finalizes with "Failed to power off node ...: <detail>". After the command succeeds,
  poll node state until it reports powered-off or until elapsed time since
  \<open>session.started_at\<close> exceeds the configured timeout; timeout finalizes with "Timeout
  waiting for node ... to power off after introspection"''. The polling loop need not
  end (the node may stay on while the clock stands still), so it takes fuel: \<open>None\<close>
  is a loop that has not ended within it.
\<close>

definition power_off_message :: "string \<Rightarrow> string \<Rightarrow> string" where
  "power_off_message u detail =
     ''Failed to power off node '' @ u @ '', check it's power management configuration: '' @
     detail"

definition timeout_message :: "string \<Rightarrow> string" where
  "timeout_message u = ''Timeout waiting for node '' @ u @ '' to power off after introspection''"

definition command_power_off :: "settings \<Rightarrow> client \<Rightarrow> node_info \<Rightarrow> phase" where
  "command_power_off cfg cl session tr =
     (let r = retry_on_conflict (max_attempts cfg) (set_power_state cl) (power_calls tr);
          tr' = tr\<lparr>power_calls := snd r\<rparr>
      in case fst r of
           Reply u \<Rightarrow> (None, tr')
         | Conflict \<Rightarrow> (Some (Raised ''Conflict''), tr')
         | Failure d \<Rightarrow>
             (Some (Reported (power_off_message (session_uuid session) d)),
              tr'\<lparr>finished := finished tr' @
                      [Some (power_off_message (session_uuid session) d)]\<rparr>))"

fun wait_power_off ::
  "nat \<Rightarrow> settings \<Rightarrow> client \<Rightarrow> node_info \<Rightarrow> trace \<Rightarrow> (failure option \<times> trace) option" where
  "wait_power_off 0 cfg cl session tr = None"
| "wait_power_off (Suc fuel) cfg cl session tr =
     (let now = clock cl (clock_reads tr);
          tr1 = tr\<lparr>clock_reads := Suc (clock_reads tr)\<rparr>
      in if now - started_at session > timeout cfg then
           Some (Some (Reported (timeout_message (session_uuid session))),
                 tr1\<lparr>finished := finished tr1 @ [Some (timeout_message (session_uuid session))]\<rparr>)
         else
           let state = get_node cl (polls tr1);
               tr2 = tr1\<lparr>polls := Suc (polls tr1)\<rparr>
           in if state = Some ''power off'' then Some (None, tr2)
              else wait_power_off fuel cfg cl session tr2)"

text \<open>
  Modelled from the spec: the phases of \<open>runSession\<close> in the order of its numbered
  steps, up to the power-off phase, and the whole run. Step 6: ``on success,
  \<open>session.finished()\<close> with no error''. Before that, once the node has powered off,
  the run makes a last node update, which the specification does not mention and the
  tests show (\<open>patch_after\<close> in \<open>test_ok\<close> and
  \<open>test_update_retry_on_conflict\<close>): it marks the node as newly discovered.
\<close>

definition patch_after :: "patch list" where
  "patch_after =
     [\<lparr>op = Add, path = ''/extra/newly_discovered'', val = Some ''true''\<rparr>,
      \<lparr>op = Remove, path = ''/extra/on_discovery'', val = None\<rparr>]"

definition finalize :: phase where
  "finalize tr = (None, tr\<lparr>finished := finished tr @ [None]\<rparr>)"

definition before_power_off ::
  "settings \<Rightarrow> client \<Rightarrow> node \<Rightarrow> normalized_record \<Rightarrow> node_info \<Rightarrow> phase" where
  "before_power_off cfg cl nd record session tr =
     (case port_sync cl (macs record) tr of
        (Inl e, tr1) \<Rightarrow> (Some e, tr1)
      | (Inr ports, tr1) \<Rightarrow>
          phases [hook_phase cfg cl nd record ports,
                  credential_rotation cfg cl nd record session] tr1)"

definition run_session ::
  "nat \<Rightarrow> settings \<Rightarrow> client \<Rightarrow> node \<Rightarrow> normalized_record \<Rightarrow> node_info \<Rightarrow> trace \<Rightarrow>
   (failure option \<times> trace) option" where
  "run_session fuel cfg cl nd record session tr =
     (case phases [before_power_off cfg cl nd record session,
                   command_power_off cfg cl session] tr of
        (Some e, tr1) \<Rightarrow> Some (Some e, tr1)
      | (None, tr1) \<Rightarrow>
          (case wait_power_off fuel cfg cl session tr1 of
             None \<Rightarrow> None
           | Some (Some e, tr2) \<Rightarrow> Some (Some e, tr2)
           | Some (None, tr2) \<Rightarrow>
               Some (phases [update_node_retry cfg cl patch_after, finalize] tr2)))"

text \<open>A message contains a text.\<close>

fun contains :: "string \<Rightarrow> string \<Rightarrow> bool" where
  "contains [] text = (text = [])"
| "contains (c # cs) text = (take (length text) (c # cs) = text \<or> contains cs text)"

text \<open>
  The values of the tests of the repository (\<open>TestProcessNode\<close>): a node, the record of
  its discovery, a session with and without new credentials, and scripted clients: one
  whose clock is far beyond the timeout while the node stays on
  (\<open>test_power_off_timeout\<close>), one whose first and third node update calls meet a conflict
  (\<open>test_update_retry_on_conflict\<close>), one whose node update fails after a conflict.
\<close>

definition discovered_node :: node where
  "discovered_node =
     \<lparr>uuid = ''uuid'', properties = Map.empty,
      driver_info = [''ipmi_address'' \<mapsto> ''1.2.3.4'']\<rparr>"

definition discovered_record :: normalized_record where
  "discovered_record =
     \<lparr>macs = [''11:22:33:44:55:66'', ''66:55:44:33:22:11''], ipmi_address = Some ''1.2.3.4'',
      cpus = ''2'', cpu_arch = ''x86_64'', memory_mb = ''1024'', local_gb = ''20''\<rparr>"

definition plain_session :: node_info where
  "plain_session = \<lparr>session_uuid = ''uuid'', started_at = 0, new_ipmi_credentials = None\<rparr>"

definition rotating_session :: node_info where
  "rotating_session = plain_session\<lparr>new_ipmi_credentials := Some (''user'', ''password'')\<rparr>"

definition session_settings :: settings where
  "session_settings =
     \<lparr>max_attempts = 3, credential_attempts = 3, timeout = 100, overwrite_existing = True,
      pipeline = (\<lambda>ports. Inr ([], []))\<rparr>"

definition late_client :: client where
  "late_client =
     \<lparr>create_port = (\<lambda>k. Reply (if k = 0 then ''port_uuid0'' else ''port_uuid1'')),
      update_node = (\<lambda>k. Reply ()),
      update_port = (\<lambda>k. Reply ()),
      set_power_state = (\<lambda>k. Reply ()),
      probe_boot_device = (\<lambda>k. Reply ()),
      get_node = (\<lambda>k. Some ''power on''),
      clock = (\<lambda>k. 1000)\<rparr>"

definition conflicting_client :: client where
  "conflicting_client =
     late_client\<lparr>update_node := (\<lambda>k. if k = 0 \<or> k = 2 then Conflict else Reply ()),
                 get_node := (\<lambda>k. if k < 2 then Some ''power on'' else Some ''power off''),
                 clock := (\<lambda>k. 1)\<rparr>"

definition failing_client :: client where
  "failing_client = late_client\<lparr>update_node := (\<lambda>k. if k = 0 then Conflict else Failure ''boom'')\<rparr>"

definition patch_before :: "patch list" where
  "patch_before =
     [\<lparr>op = Add, path = ''/properties/cpus'', val = Some ''2''\<rparr>,
      \<lparr>op = Add, path = ''/properties/cpu_arch'', val = Some ''x86_64''\<rparr>,
      \<lparr>op = Add, path = ''/properties/memory_mb'', val = Some ''1024''\<rparr>,
      \<lparr>op = Add, path = ''/properties/local_gb'', val = Some ''20''\<rparr>]"

definition patch_credentials :: "patch list" where
  "patch_credentials =
     [\<lparr>op = Add, path = ''/driver_info/ipmi_username'', val = Some ''user''\<rparr>,
      \<lparr>op = Add, path = ''/driver_info/ipmi_password'', val = Some ''password''\<rparr>]"

text \<open>
  What a phase that makes no node update leaves as it was when it has succeeded: the
  clock readings, the polls, the finalizations of the session and the node updates.
\<close>

definition undisturbed :: "trace \<Rightarrow> trace \<Rightarrow> bool" where
  "undisturbed tr tr' \<longleftrightarrow>
     clock_reads tr' = clock_reads tr \<and> polls tr' = polls tr \<and> finished tr' = finished tr \<and>
     node_updates tr' = node_updates tr"

section \<open>Properties of the firewall module\<close>

subsection \<open>Commands leave the globals alone\<close>

lemma same_globals_refl: "same_globals s s"
  by (simp add: same_globals_def)

lemma same_globals_trans: "same_globals s t \<Longrightarrow> same_globals t u \<Longrightarrow> same_globals s u"
  by (simp add: same_globals_def)

lemma priv_iptables_globals:
  "priv_iptables env args ign s = (r, s') \<Longrightarrow> same_globals s s'"
  by (auto simp: priv_iptables_def same_globals_def Let_def split: option.splits if_splits)

lemma priv_iptables_ok:
  assumes "priv_iptables env args ign s = (None, s')"
  shows "\<exists>base. BASE_COMMAND s = Some base \<and> None \<notin> set args \<and>
           issued s' = issued s @ [base @ map the args] \<and> logged s' = logged s"
  using assms
  by (auto simp: priv_iptables_def Let_def split: option.splits if_splits)

lemma priv_iptables_raise:
  assumes "priv_iptables env args ign s = (Some e, s')"
  shows "e = TypeError \<and> (s' = s \<or> \<not> text_output env) \<or>
         e = CalledProcessError \<and> \<not> ign \<and> text_output env \<and> BASE_COMMAND s \<noteq> None \<and>
           None \<notin> set args \<and> logged s' = logged s @ [IptablesFailed (map the args)]"
  using assms
  by (auto simp: priv_iptables_def Let_def split: option.splits if_splits)

lemma run_seq_cmds:
  "run_seq (map (\<lambda>c. priv_iptables env (fst c) (snd c)) cs) s = run_cmds env cs s"
  by (induction cs arbitrary: s) (auto split: prod.splits option.splits)

lemma run_cmds_append:
  "run_cmds env (xs @ ys) s =
     (case run_cmds env xs s of
        (Some e, s') \<Rightarrow> (Some e, s')
      | (None, s') \<Rightarrow> run_cmds env ys s')"
  by (induction xs arbitrary: s) (auto split: prod.splits option.splits)

lemma run_cmds_globals:
  "run_cmds env cs s = (r, s') \<Longrightarrow> same_globals s s'"
proof (induction cs arbitrary: s)
  case Nil
  then show ?case by (simp add: same_globals_refl)
next
  case (Cons c cs)
  obtain r1 s1 where step: "priv_iptables env (fst c) (snd c) s = (r1, s1)"
    by (cases "priv_iptables env (fst c) (snd c) s")
  have g1: "same_globals s s1" using step by (rule priv_iptables_globals)
  show ?case
  proof (cases r1)
    case None
    with Cons.prems step have "run_cmds env cs s1 = (r, s')" by simp
    then have "same_globals s1 s'" by (rule Cons.IH)
    with g1 show ?thesis by (rule same_globals_trans)
  next
    case (Some e)
    with Cons.prems step have "s' = s1" by simp
    with g1 show ?thesis by simp
  qed
qed

lemma run_cmds_ok:
  "run_cmds env cs s = (None, s') \<Longrightarrow> BASE_COMMAND s = Some base \<Longrightarrow>
     issued s' = issued s @ command_lines base cs \<and> logged s' = logged s"
proof (induction cs arbitrary: s)
  case Nil
  then show ?case by (simp add: command_lines_def)
next
  case (Cons c cs)
  obtain r1 s1 where step: "priv_iptables env (fst c) (snd c) s = (r1, s1)"
    by (cases "priv_iptables env (fst c) (snd c) s")
  with Cons.prems have r1: "r1 = None" and rest: "run_cmds env cs s1 = (None, s')"
    by (auto split: option.splits)
  from step r1 Cons.prems(2)
  have i1: "issued s1 = issued s @ [base @ map the (fst c)]" and l1: "logged s1 = logged s"
    using priv_iptables_ok [of env "fst c" "snd c" s s1] by auto
  have "BASE_COMMAND s1 = Some base"
    using priv_iptables_globals [OF step] Cons.prems(2) by (simp add: same_globals_def)
  from Cons.IH [OF rest this] i1 l1 show ?case by (simp add: command_lines_def)
qed

lemma run_cmds_ok_args:
  "run_cmds env cs s = (None, s') \<Longrightarrow> c \<in> set cs \<Longrightarrow>
     BASE_COMMAND s \<noteq> None \<and> None \<notin> set (fst c)"
proof (induction cs arbitrary: s)
  case Nil
  then show ?case by simp
next
  case (Cons d cs)
  obtain r1 s1 where step: "priv_iptables env (fst d) (snd d) s = (r1, s1)"
    by (cases "priv_iptables env (fst d) (snd d) s")
  with Cons.prems have r1: "r1 = None" and rest: "run_cmds env cs s1 = (None, s')"
    by (auto split: option.splits)
  have here: "BASE_COMMAND s \<noteq> None \<and> None \<notin> set (fst d)"
    using priv_iptables_ok [of env "fst d" "snd d" s s1] step r1 by auto
  have "BASE_COMMAND s1 = BASE_COMMAND s"
    using priv_iptables_globals [OF step] by (simp add: same_globals_def)
  with Cons.IH [OF rest] Cons.prems(2) here show ?case by auto
qed

lemma run_cmds_issued:
  "run_cmds env cs s = (r, s') \<Longrightarrow> \<exists>xs. issued s' = issued s @ xs"
proof (induction cs arbitrary: s)
  case Nil
  then show ?case by simp
next
  case (Cons d cs)
  obtain r1 s1 where step: "priv_iptables env (fst d) (snd d) s = (r1, s1)"
    by (cases "priv_iptables env (fst d) (snd d) s")
  have one: "\<exists>xs. issued s1 = issued s @ xs"
    using step by (auto simp: priv_iptables_def Let_def split: option.splits if_splits)
  show ?case
  proof (cases r1)
    case None
    with Cons.prems step have "run_cmds env cs s1 = (r, s')" by simp
    from Cons.IH [OF this] one show ?thesis by auto
  next
    case (Some e)
    with Cons.prems step have "s' = s1" by simp
    with one show ?thesis by simp
  qed
qed

lemma run_cmds_raise:
  "run_cmds env cs s = (Some e, s') \<Longrightarrow>
     e = TypeError \<or>
     e = CalledProcessError \<and> BASE_COMMAND s \<noteq> None \<and>
       (\<exists>xs. issued s' = issued s @ xs \<and> xs \<noteq> [])"
proof (induction cs arbitrary: s)
  case Nil
  then show ?case by simp
next
  case (Cons d cs)
  obtain r1 s1 where step: "priv_iptables env (fst d) (snd d) s = (r1, s1)"
    by (cases "priv_iptables env (fst d) (snd d) s")
  show ?case
  proof (cases r1)
    case None
    with Cons.prems step have rest: "run_cmds env cs s1 = (Some e, s')" by simp
    from step None obtain base where b: "BASE_COMMAND s = Some base"
      and i1: "issued s1 = issued s @ [base @ map the (fst d)]"
      using priv_iptables_ok [of env "fst d" "snd d" s s1] by auto
    from run_cmds_issued [OF rest] obtain ys where "issued s' = issued s1 @ ys" by auto
    with i1 have "issued s' = issued s @ ([base @ map the (fst d)] @ ys)" by simp
    then have "\<exists>xs. issued s' = issued s @ xs \<and> xs \<noteq> []" by blast
    with Cons.IH [OF rest] b show ?thesis by auto
  next
    case (Some e')
    with Cons.prems step have "e' = e" "s' = s1" by auto
    with step Some show ?thesis
      by (auto simp: priv_iptables_def Let_def split: option.splits if_splits)
  qed
qed

lemma priv_clean_up_cmds:
  "priv_clean_up env chain s =
     run_cmds env
       [(Some ''-D'' # hook_args (INTERFACE s) chain, True),
        ([Some ''-F'', chain], True),
        ([Some ''-X'', chain], True)] s"
  by (simp add: priv_clean_up_def split: prod.splits option.splits)

lemma priv_clean_up_globals:
  "priv_clean_up env chain s = (r, s') \<Longrightarrow> same_globals s s'"
  unfolding priv_clean_up_cmds by (rule run_cmds_globals)

lemma same_globals_sym: "same_globals s t \<Longrightarrow> same_globals t s"
  by (simp add: same_globals_def)

lemma run_seq_map_run_cmds:
  "run_seq (map (run_cmds env) css) s = run_cmds env (concat css) s"
  by (induction css arbitrary: s)
     (auto simp: run_cmds_append split: prod.splits option.splits)

lemma run_seq_cong:
  assumes "list_all2 (\<lambda>f g. \<forall>t. same_globals s0 t \<longrightarrow>
              f t = g t \<and> same_globals t (snd (g t))) fs gs"
    and "same_globals s0 s"
  shows "run_seq fs s = run_seq gs s"
  using assms
proof (induction fs gs arbitrary: s rule: list_all2_induct)
  case Nil
  then show ?case by simp
next
  case (Cons f fs g gs)
  have fg: "f s = g s" and gl: "same_globals s (snd (g s))"
    using Cons.hyps(1) Cons.prems by auto
  obtain r s1 where g: "g s = (r, s1)" by (cases "g s")
  show ?case
  proof (cases r)
    case None
    have "same_globals s0 s1"
      using Cons.prems gl g by (auto dest: same_globals_trans)
    from Cons.IH [OF this] fg g None show ?thesis by simp
  next
    case (Some e)
    with fg g show ?thesis by simp
  qed
qed

lemma run_cmds_globals_snd: "same_globals t (snd (run_cmds env cs t))"
  using run_cmds_globals [of env cs t] by (cases "run_cmds env cs t") auto

lemma priv_temporary_chain_cmds:
  assumes body: "\<And>t. same_globals s t \<Longrightarrow> body t = run_cmds env bs t"
  shows "priv_temporary_chain env chain main_chain body s =
           run_cmds env (swap_cmds (INTERFACE s) chain main_chain bs) s"
proof -
  let ?css = "[[(Some ''-D'' # hook_args (INTERFACE s) chain, True),
                ([Some ''-F'', chain], True),
                ([Some ''-X'', chain], True)],
               [([Some ''-N'', chain], False)],
               bs,
               [(Some ''-I'' # hook_args (INTERFACE s) chain, False)],
               [(Some ''-D'' # hook_args (INTERFACE s) main_chain, True)],
               [([Some ''-F'', main_chain], True)],
               [([Some ''-X'', main_chain], True)],
               [([Some ''-E'', chain, main_chain], False)]]"
  have one: "\<And>a i t. priv_iptables env a i t = run_cmds env [(a, i)] t"
    by (simp split: prod.splits option.splits)
  have "priv_temporary_chain env chain main_chain body s =
          run_seq (map (run_cmds env) ?css) s"
    unfolding priv_temporary_chain_def
    apply (rule run_seq_cong [where ?s0.0 = s])
     apply (simp add: run_cmds_globals_snd body priv_clean_up_cmds one del: run_cmds.simps)
     apply (simp add: same_globals_def)
    apply (rule same_globals_refl)
    done
  also have "\<dots> = run_cmds env (concat ?css) s"
    by (rule run_seq_map_run_cmds)
  finally show ?thesis by (simp add: swap_cmds_def)
qed

lemma run_seq_globals:
  assumes "\<And>f t. f \<in> set fs \<Longrightarrow> same_globals t (snd (f t))"
  shows "same_globals s (snd (run_seq fs s))"
  using assms
proof (induction fs arbitrary: s)
  case Nil
  then show ?case by (simp add: same_globals_refl)
next
  case (Cons f fs)
  have one: "same_globals s (snd (f s))" using Cons.prems by simp
  obtain r s1 where f: "f s = (r, s1)" by (cases "f s")
  show ?case
  proof (cases r)
    case None
    have "same_globals s1 (snd (run_seq fs s1))"
      using Cons.prems by (intro Cons.IH) simp
    with one f None show ?thesis by (auto dest: same_globals_trans)
  next
    case (Some e)
    with one f show ?thesis by simp
  qed
qed

lemma priv_iptables_globals_snd: "same_globals t (snd (priv_iptables env a i t))"
  using priv_iptables_globals [of env a i t] by (cases "priv_iptables env a i t") auto

lemma priv_clean_up_globals_snd: "same_globals t (snd (priv_clean_up env c t))"
  unfolding priv_clean_up_cmds by (rule run_cmds_globals_snd)

lemma blacklist_body_cmds:
  assumes "same_globals s t"
  shows "blacklist_body env bl m t =
           run_cmds env (blacklist_cmds (NEW_CHAIN s) (map (remap m) (set_iter env bl))) t"
proof -
  have n: "NEW_CHAIN t = NEW_CHAIN s" using assms by (simp add: same_globals_def)
  have "blacklist_body env bl m t =
          run_seq (map (\<lambda>c. priv_iptables env (fst c) (snd c))
                     (blacklist_cmds (NEW_CHAIN s) (map (remap m) (set_iter env bl)))) t"
    by (simp add: blacklist_body_def blacklist_cmds_def n comp_def)
  then show ?thesis by (simp only: run_seq_cmds)
qed

lemma reject_body_cmds:
  assumes "same_globals s t"
  shows "priv_iptables env [Some ''-A'', NEW_CHAIN t, Some ''-j'', Some ''REJECT''] False t =
           run_cmds env (reject_cmds (NEW_CHAIN s)) t"
  using assms by (simp add: reject_cmds_def same_globals_def split: prod.splits option.splits)

lemma priv_disable_dhcp_cmds:
  assumes "ENABLED s"
  shows "priv_disable_dhcp env s =
           (case run_cmds env
                   (swap_cmds (INTERFACE s) (NEW_CHAIN s) (CHAIN s) (reject_cmds (NEW_CHAIN s)))
                   (s\<lparr>BLACKLIST_CACHE := None\<rparr>) of
              (Some e, s2) \<Rightarrow> (Some e, s2)
            | (None, s2) \<Rightarrow> (None, s2\<lparr>ENABLED := False\<rparr>))"
proof -
  let ?s1 = "s\<lparr>BLACKLIST_CACHE := None\<rparr>"
  have "priv_temporary_chain env (NEW_CHAIN ?s1) (CHAIN ?s1)
          (\<lambda>t. priv_iptables env [Some ''-A'', NEW_CHAIN t, Some ''-j'', Some ''REJECT''] False t) ?s1 =
        run_cmds env (swap_cmds (INTERFACE ?s1) (NEW_CHAIN ?s1) (CHAIN ?s1)
                        (reject_cmds (NEW_CHAIN ?s1))) ?s1"
    by (rule priv_temporary_chain_cmds) (rule reject_body_cmds)
  then show ?thesis using assms by (simp add: priv_disable_dhcp_def Let_def)
qed

lemma ports_loop_error:
  "ports_loop env data bl ps m = Inl e \<Longrightarrow> e = ReError"
  by (induction ps arbitrary: m)
     (auto simp: port_step_def emac_search_def Let_def
           split: sum.splits option.splits if_splits)

lemma ifaces_loop_error:
  "fst (ifaces_loop env bl ps is m) = Inl e \<Longrightarrow> e = ReError"
  by (induction "is" arbitrary: m)
     (auto simp: Let_def dest: ports_loop_error split: sum.splits option.splits)

lemma port_list_client: "port_list env = Some ports \<Longrightarrow> resolve_client env \<noteq> None"
  by (auto simp: port_list_def split: option.splits)

lemma update_filters_rewrite:
  assumes "manage_firewall (conf env)" and "INTERFACE s \<noteq> None"
    and "priv_should_enable_dhcp env" and "port_list env = Some ports"
    and "priv_ib_mac_to_rmac_mapping env (to_blacklist_of env ports) ports = (Inr m, lg)"
    and "\<not> (BLACKLIST_CACHE s = Some (to_blacklist_of env ports) \<and> m = Map.empty)"
  shows "update_filters env s =
           (case run_cmds env
                   (swap_cmds (INTERFACE s) (NEW_CHAIN s) (CHAIN s)
                      (blacklist_cmds (NEW_CHAIN s)
                         (map (remap m) (set_iter env (to_blacklist_of env ports)))))
                   (s\<lparr>logged := logged s @ lg, BLACKLIST_CACHE := None\<rparr>) of
              (Some e, s2) \<Rightarrow> (Some e, s2)
            | (None, s2) \<Rightarrow>
                (None, s2\<lparr>ENABLED := True,
                          BLACKLIST_CACHE := Some (to_blacklist_of env ports)\<rparr>))"
proof -
  let ?bl = "to_blacklist_of env ports"
  let ?s1 = "s\<lparr>logged := logged s @ lg, BLACKLIST_CACHE := None\<rparr>"
  have "priv_temporary_chain env (NEW_CHAIN ?s1) (CHAIN ?s1) (blacklist_body env ?bl m) ?s1 =
        run_cmds env (swap_cmds (INTERFACE ?s1) (NEW_CHAIN ?s1) (CHAIN ?s1)
                        (blacklist_cmds (NEW_CHAIN ?s1) (map (remap m) (set_iter env ?bl)))) ?s1"
    by (rule priv_temporary_chain_cmds) (rule blacklist_body_cmds)
  then show ?thesis using assms port_list_client [OF assms(4)]
    by (auto simp: update_filters_def Let_def)
qed

lemma update_filters_skip:
  assumes "manage_firewall (conf env)" and "INTERFACE s \<noteq> None"
    and "priv_should_enable_dhcp env" and "port_list env = Some ports"
    and "priv_ib_mac_to_rmac_mapping env (to_blacklist_of env ports) ports = (Inr Map.empty, lg)"
    and "BLACKLIST_CACHE s = Some (to_blacklist_of env ports)"
  shows "update_filters env s = (None, s\<lparr>logged := logged s @ lg\<rparr>)"
  using assms port_list_client [OF assms(4)] by (auto simp: update_filters_def Let_def)

lemma swap_cmds_lines:
  "command_lines base (swap_cmds (Some iface) (Some chain) (Some main_chain) body) =
     map ((@) base) (swap_sequence iface chain main_chain (map (\<lambda>c. map the (fst c)) body))"
  by (simp add: command_lines_def swap_cmds_def swap_sequence_def hook_args_def hook_rule_def)

lemma swap_cmds_args:
  assumes "\<And>c. c \<in> set (swap_cmds iface chain main_chain body) \<Longrightarrow> None \<notin> set (fst c)"
  shows "iface \<noteq> None \<and> chain \<noteq> None \<and> main_chain \<noteq> None"
proof -
  have "None \<notin> set (Some ''-D'' # hook_args iface chain)"
    using assms [of "(Some ''-D'' # hook_args iface chain, True)"] by (simp add: swap_cmds_def)
  moreover have "None \<notin> set [Some ''-F'', main_chain]"
    using assms [of "([Some ''-F'', main_chain], True)"] by (simp add: swap_cmds_def)
  ultimately show ?thesis by (cases iface; cases chain; cases main_chain) (auto simp: hook_args_def)
qed

lemma run_swap_ok:
  assumes "run_cmds env (swap_cmds iface chain main_chain body) s = (None, s')"
  shows "\<exists>base i c m.
           BASE_COMMAND s = Some base \<and> iface = Some i \<and> chain = Some c \<and>
           main_chain = Some m \<and> same_globals s s' \<and> logged s' = logged s \<and>
           issued s' = issued s @
             map ((@) base) (swap_sequence i c m (map (\<lambda>c. map the (fst c)) body))"
proof -
  have ne: "(Some ''-D'' # hook_args iface chain, True) \<in> set (swap_cmds iface chain main_chain body)"
    by (simp add: swap_cmds_def)
  from run_cmds_ok_args [OF assms ne] obtain base where b: "BASE_COMMAND s = Some base" by auto
  have "iface \<noteq> None \<and> chain \<noteq> None \<and> main_chain \<noteq> None"
    by (rule swap_cmds_args) (use run_cmds_ok_args [OF assms] in blast)
  then obtain i c m where n: "iface = Some i" "chain = Some c" "main_chain = Some m" by auto
  from run_cmds_ok [OF assms b]
  have "issued s' = issued s @ command_lines base (swap_cmds iface chain main_chain body)"
    and "logged s' = logged s" by simp_all
  with b n run_cmds_globals [OF assms] show ?thesis
    by (simp add: swap_cmds_lines)
qed

lemma update_filters_no_assertion:
  assumes "INTERFACE s \<noteq> None"
  shows "fst (update_filters env s) \<noteq> Some AssertionError"
proof (cases "manage_firewall (conf env)")
  case False
  then show ?thesis by (simp add: update_filters_def)
next
  case m: True
  show ?thesis
  proof (cases "priv_should_enable_dhcp env")
    case False
    have "fst (priv_disable_dhcp env s) \<noteq> Some AssertionError"
    proof (cases "ENABLED s")
      case False
      then show ?thesis by (simp add: priv_disable_dhcp_def)
    next
      case True
      show ?thesis
        unfolding priv_disable_dhcp_cmds [OF True]
        by (auto split: prod.splits option.splits dest: run_cmds_raise)
    qed
    with m False assms show ?thesis by (simp add: update_filters_def)
  next
    case en: True
    show ?thesis
    proof (cases "port_list env")
      case None
      with m en assms show ?thesis by (simp add: update_filters_def)
    next
      case (Some ports)
      obtain r lg where map: "priv_ib_mac_to_rmac_mapping env (to_blacklist_of env ports) ports = (r, lg)"
        by (cases "priv_ib_mac_to_rmac_mapping env (to_blacklist_of env ports) ports")
      show ?thesis
      proof (cases r)
        case (Inl e)
        with map have "e = ReError"
          using ifaces_loop_error [of env "to_blacklist_of env ports" ports
                  "ethoib_interfaces (conf env)" Map.empty e]
          by (simp add: priv_ib_mac_to_rmac_mapping_def)
        with m en assms Some map Inl show ?thesis by (simp add: update_filters_def Let_def)
      next
        case (Inr mp)
        show ?thesis
        proof (cases "BLACKLIST_CACHE s = Some (to_blacklist_of env ports) \<and> mp = Map.empty")
          case True
          with update_filters_skip [OF m assms en Some, of lg] map Inr show ?thesis by simp
        next
          case False
          show ?thesis
            unfolding update_filters_rewrite [OF m assms en Some map [unfolded Inr] False]
            by (auto split: prod.splits option.splits dest: run_cmds_raise)
        qed
      qed
    qed
  qed
qed

text \<open>
  Claim C9. With firewall management enabled, \<open>update_filters\<close> called on the globals
  as the module is loaded fails its assertion (the interface is still unset), runs no
  command and changes nothing. A call of \<open>init\<close> that returns normally has set the
  interface, both chain names and the base command, and from then on no call of
  \<open>update_filters\<close> fails the assertion.
\<close>

theorem update_filters_requires_init:
  assumes "manage_firewall (conf env)"
  shows "update_filters env (initial_state w) = (Some AssertionError, initial_state w) \<and>
         (\<forall>s s'. init env s = (None, s') \<longrightarrow>
            INTERFACE s' = Some (dnsmasq_interface (conf env)) \<and>
            CHAIN s' = Some (firewall_chain (conf env)) \<and>
            NEW_CHAIN s' = Some (firewall_chain (conf env) @ ''_temp'') \<and>
            BASE_COMMAND s' \<noteq> None \<and>
            (\<forall>env'. fst (update_filters env' s') \<noteq> Some AssertionError))"
proof (intro conjI allI impI)
  show "update_filters env (initial_state w) = (Some AssertionError, initial_state w)"
    using assms by (simp add: update_filters_def initial_state_def)
next
  fix s s' :: "'a state"
  assume run: "init env s = (None, s')"
  define base where "base = [''sudo'', ''ironic-inspector-rootwrap'',
                    rootwrap_config (conf env), ''iptables'']"
  define s1 where "s1 = s\<lparr>BLACKLIST_CACHE := None,
                   INTERFACE := Some (dnsmasq_interface (conf env)),
                   CHAIN := Some (firewall_chain (conf env)),
                   NEW_CHAIN := Some (firewall_chain (conf env) @ ''_temp''),
                   BASE_COMMAND := Some base\<rparr>"
  define r where "r = exec env (world s1) (base @ [''-w'', ''-h''])"
  define s2 where "s2 = s1\<lparr>world := snd r, issued := issued s1 @ [base @ [''-w'', ''-h'']]\<rparr>"
  define s3 where "s3 = (if fst r then s2\<lparr>BASE_COMMAND := Some (base @ [''-w''])\<rparr> else s2)"
  define fs where "fs = [priv_clean_up env (CHAIN s3),
              priv_iptables env [Some ''-N'', CHAIN s3] False]"
  have "init env s = run_seq fs s3"
    using assms unfolding init_def Let_def fs_def s3_def s2_def r_def s1_def base_def
    by (simp only: if_False not_True_eq_False)
  with run have run3: "run_seq fs s3 = (None, s')" by simp
  have "same_globals s3 (snd (run_seq fs s3))"
    by (rule run_seq_globals)
       (auto simp: fs_def priv_iptables_globals_snd priv_clean_up_globals_snd)
  with run3 have g: "same_globals s3 s'" by simp
  have f3: "INTERFACE s3 = Some (dnsmasq_interface (conf env))"
    "CHAIN s3 = Some (firewall_chain (conf env))"
    "NEW_CHAIN s3 = Some (firewall_chain (conf env) @ ''_temp'')"
    "BASE_COMMAND s3 \<noteq> None"
    by (simp_all add: s3_def s2_def s1_def)
  with g show i: "INTERFACE s' = Some (dnsmasq_interface (conf env))"
    and "CHAIN s' = Some (firewall_chain (conf env))"
    and "NEW_CHAIN s' = Some (firewall_chain (conf env) @ ''_temp'')"
    and "BASE_COMMAND s' \<noteq> None"
    by (simp_all add: same_globals_def)
  fix env' :: "'a env"
  from i have "INTERFACE s' \<noteq> None" by simp
  then show "fst (update_filters env' s') \<noteq> Some AssertionError"
    by (rule update_filters_no_assertion)
qed

text \<open>\<open>init\<close> in the example environment, command by command.\<close>

lemma init_example:
  "init idle_env (initial_state ()) =
     (None, (ready_state ())\<lparr>issued :=
        map ((@) [''sudo'', ''ironic-inspector-rootwrap'', ''/etc/rootwrap.conf'', ''iptables''])
          [[''-w'', ''-h'']] @
        map ((@) example_base)
          [''-D'' # hook_rule ''br-ctlplane'' ''ironic-inspector'',
           [''-F'', ''ironic-inspector''], [''-X'', ''ironic-inspector''],
           [''-N'', ''ironic-inspector'']]\<rparr>)"
  by (simp add: init_def idle_env_def example_conf_def initial_state_def ready_state_def
        example_base_def priv_clean_up_def priv_iptables_def hook_args_def hook_rule_def Let_def)

theorem update_filters_requires_init_witness:
  "manage_firewall (conf idle_env) \<and>
   update_filters idle_env (initial_state ()) = (Some AssertionError, initial_state ()) \<and>
   (\<exists>s'. init idle_env (initial_state ()) = (None, s') \<and>
      INTERFACE s' = Some ''br-ctlplane'' \<and> CHAIN s' = Some ''ironic-inspector'' \<and>
      NEW_CHAIN s' = Some ''ironic-inspector_temp'' \<and>
      fst (update_filters idle_env s') \<noteq> Some AssertionError)"
proof -
  have m: "manage_firewall (conf idle_env)"
    by (simp add: idle_env_def example_conf_def)
  have c: "dnsmasq_interface (conf idle_env) = ''br-ctlplane''"
    "firewall_chain (conf idle_env) = ''ironic-inspector''"
    by (simp_all add: idle_env_def example_conf_def)
  from update_filters_requires_init [OF m, of "()"] init_example c m
  show ?thesis by auto
qed

subsection \<open>What a call of \<open>update_filters\<close> runs\<close>

lemma blacklist_cmds_lines:
  "map (\<lambda>c. map the (fst c)) (blacklist_cmds (Some chain) ms) =
     map (drop_rule chain) ms @ [accept_rule chain]"
  by (simp add: blacklist_cmds_def drop_args_def drop_rule_def accept_rule_def comp_def)

lemma reject_cmds_lines:
  "map (\<lambda>c. map the (fst c)) (reject_cmds (Some chain)) = [reject_rule chain]"
  by (simp add: reject_cmds_def reject_rule_def)

lemma mapping_cases:
  obtains (failed) lg where "priv_ib_mac_to_rmac_mapping env bl ports = (Inl ReError, lg)"
        | (found) m lg where "priv_ib_mac_to_rmac_mapping env bl ports = (Inr m, lg)"
proof (cases "priv_ib_mac_to_rmac_mapping env bl ports")
  case (Pair r lg)
  show ?thesis
  proof (cases r)
    case (Inl e)
    with Pair have "e = ReError"
      using ifaces_loop_error [of env bl ports "ethoib_interfaces (conf env)" Map.empty e]
      by (simp add: priv_ib_mac_to_rmac_mapping_def)
    with Pair Inl failed show ?thesis by simp
  next
    case (Inr m)
    with Pair found show ?thesis by simp
  qed
qed

lemma update_filters_mapping_error:
  assumes "manage_firewall (conf env)" and "INTERFACE s \<noteq> None"
    and "priv_should_enable_dhcp env" and "port_list env = Some ports"
    and "priv_ib_mac_to_rmac_mapping env (to_blacklist_of env ports) ports = (Inl e, lg)"
  shows "update_filters env s = (Some e, s\<lparr>logged := logged s @ lg\<rparr>)"
  using assms port_list_client [OF assms(4)] by (auto simp: update_filters_def Let_def)

text \<open>A call that computes a blacklist and returns normally without taking the shortcut.\<close>

lemma update_filters_rewritten:
  assumes m: "manage_firewall (conf env)" and i: "INTERFACE s \<noteq> None"
    and en: "priv_should_enable_dhcp env" and p: "port_list env = Some ports"
    and run: "update_filters env s = (None, s')"
    and ns: "\<not> (BLACKLIST_CACHE s = Some (to_blacklist_of env ports) \<and>
               fst (priv_ib_mac_to_rmac_mapping env (to_blacklist_of env ports) ports) = Inr Map.empty)"
  shows "\<exists>mp lg base iface new main.
           priv_ib_mac_to_rmac_mapping env (to_blacklist_of env ports) ports = (Inr mp, lg) \<and>
           BASE_COMMAND s = Some base \<and> INTERFACE s = Some iface \<and>
           NEW_CHAIN s = Some new \<and> CHAIN s = Some main \<and>
           issued s' = issued s @
             map ((@) base)
               (swap_sequence iface new main
                  (map (drop_rule new) (map (remap mp) (set_iter env (to_blacklist_of env ports))) @
                   [accept_rule new])) \<and>
           logged s' = logged s @ lg \<and>
           BLACKLIST_CACHE s' = Some (to_blacklist_of env ports) \<and> ENABLED s' \<and>
           BASE_COMMAND s' = Some base \<and> INTERFACE s' = Some iface \<and>
           NEW_CHAIN s' = Some new \<and> CHAIN s' = Some main"
proof (cases rule: mapping_cases [of env "to_blacklist_of env ports" ports])
  case (failed lg)
  from update_filters_mapping_error [OF m i en p failed] run show ?thesis by simp
next
  case (found mp lg)
  let ?bl = "to_blacklist_of env ports"
  let ?s1 = "s\<lparr>logged := logged s @ lg, BLACKLIST_CACHE := None\<rparr>"
  let ?script = "swap_cmds (INTERFACE s) (NEW_CHAIN s) (CHAIN s)
                   (blacklist_cmds (NEW_CHAIN s) (map (remap mp) (set_iter env ?bl)))"
  from ns found have ns': "\<not> (BLACKLIST_CACHE s = Some ?bl \<and> mp = Map.empty)" by simp
  obtain r2 s2 where r2: "run_cmds env ?script ?s1 = (r2, s2)"
    by (cases "run_cmds env ?script ?s1")
  from update_filters_rewrite [OF m i en p found ns'] run r2
  have ok: "r2 = None" and s': "s' = s2\<lparr>ENABLED := True, BLACKLIST_CACHE := Some ?bl\<rparr>"
    by (auto split: option.splits)
  from run_swap_ok [OF r2 [unfolded ok]] obtain base iface new main where
    f: "BASE_COMMAND ?s1 = Some base" "INTERFACE s = Some iface" "NEW_CHAIN s = Some new"
       "CHAIN s = Some main" "same_globals ?s1 s2" "logged s2 = logged ?s1"
    and iss: "issued s2 = issued ?s1 @ map ((@) base)
       (swap_sequence iface new main
          (map (\<lambda>c. map the (fst c)) (blacklist_cmds (NEW_CHAIN s) (map (remap mp) (set_iter env ?bl)))))"
    by auto
  from f iss found s' show ?thesis
    by (simp add: blacklist_cmds_lines same_globals_def)
qed

text \<open>What any call that computes a blacklist leaves in the cache.\<close>

lemma update_filters_cache_after:
  assumes m: "manage_firewall (conf env)" and i: "INTERFACE s \<noteq> None"
    and en: "priv_should_enable_dhcp env" and p: "port_list env = Some ports"
    and run: "update_filters env s = (r, s')"
  shows "(r = None \<longrightarrow> BLACKLIST_CACHE s' = Some (to_blacklist_of env ports)) \<and>
         (r = Some CalledProcessError \<longrightarrow>
            BLACKLIST_CACHE s' = None \<and> BASE_COMMAND s' \<noteq> None \<and>
            (\<exists>xs. issued s' = issued s @ xs \<and> xs \<noteq> [])) \<and>
         INTERFACE s' = INTERFACE s \<and> NEW_CHAIN s' = NEW_CHAIN s \<and> CHAIN s' = CHAIN s \<and>
         BASE_COMMAND s' = BASE_COMMAND s"
proof (cases rule: mapping_cases [of env "to_blacklist_of env ports" ports])
  case (failed lg)
  from update_filters_mapping_error [OF m i en p failed] run show ?thesis by auto
next
  case (found mp lg)
  let ?bl = "to_blacklist_of env ports"
  show ?thesis
  proof (cases "BLACKLIST_CACHE s = Some ?bl \<and> mp = Map.empty")
    case True
    with update_filters_skip [OF m i en p, of lg] found run show ?thesis by auto
  next
    case False
    let ?s1 = "s\<lparr>logged := logged s @ lg, BLACKLIST_CACHE := None\<rparr>"
    let ?script = "swap_cmds (INTERFACE s) (NEW_CHAIN s) (CHAIN s)
                     (blacklist_cmds (NEW_CHAIN s) (map (remap mp) (set_iter env ?bl)))"
    obtain r2 s2 where r2: "run_cmds env ?script ?s1 = (r2, s2)"
      by (cases "run_cmds env ?script ?s1")
    have g: "same_globals ?s1 s2" using r2 by (rule run_cmds_globals)
    show ?thesis
    proof (cases r2)
      case None
      with update_filters_rewrite [OF m i en p found False] run r2 g show ?thesis
        by (auto simp: same_globals_def)
    next
      case (Some e)
      with update_filters_rewrite [OF m i en p found False] run r2
      have "r = Some e" "s' = s2" by auto
      with g run_cmds_raise [OF r2 [unfolded Some]] show ?thesis
        by (auto simp: same_globals_def)
    qed
  qed
qed

lemmas run_defs =
  update_filters_def priv_disable_dhcp_def priv_temporary_chain_def priv_clean_up_def
  priv_iptables_def blacklist_body_def priv_should_enable_dhcp_def
  priv_ib_mac_to_rmac_mapping_def to_blacklist_of_def hook_args_def drop_args_def remap_def
  port_list_def resolve_client_def Let_def

lemmas example_defs =
  idle_env_def busy_env_def strict_env_def broken_env_def example_conf_def example_port_def
  ready_state_def example_swap_def swap_sequence_def hook_rule_def drop_rule_def
  accept_rule_def reject_rule_def

lemma busy_env_facts:
  "manage_firewall (conf busy_env)" "priv_should_enable_dhcp busy_env"
  "port_list busy_env = Some [example_port]"
  "to_blacklist_of busy_env [example_port] = {example_mac}"
  "priv_ib_mac_to_rmac_mapping busy_env {example_mac} [example_port] = (Inr Map.empty, [])"
  "set_iter busy_env {example_mac} = [example_mac]"
  by (simp_all add: run_defs example_defs)

lemma busy_run:
  "update_filters busy_env (ready_state ()) =
     (None, (ready_state ())\<lparr>BLACKLIST_CACHE := Some {example_mac},
        issued := example_swap [drop_rule ''ironic-inspector_temp'' example_mac,
                                accept_rule ''ironic-inspector_temp'']\<rparr>)"
  by (simp add: run_defs example_defs)

lemma busy_rerun:
  "update_filters busy_env ((ready_state ())\<lparr>BLACKLIST_CACHE := Some {example_mac}, issued := xs\<rparr>) =
     (None, (ready_state ())\<lparr>BLACKLIST_CACHE := Some {example_mac}, issued := xs\<rparr>)"
  by (simp add: run_defs example_defs)

lemma strict_run:
  "update_filters strict_env (ready_state ()) =
     (None, (ready_state ())\<lparr>BLACKLIST_CACHE := Some {example_mac},
        issued := example_swap [drop_rule ''ironic-inspector_temp'' example_mac,
                                accept_rule ''ironic-inspector_temp'']\<rparr>)"
  by (simp add: run_defs example_defs example_mac_def example_base_def)

lemma broken_run:
  "update_filters broken_env (ready_state ()) =
     (Some CalledProcessError, (ready_state ())\<lparr>
        issued := map ((@) example_base)
          [''-D'' # hook_rule ''br-ctlplane'' ''ironic-inspector_temp'',
           [''-F'', ''ironic-inspector_temp''], [''-X'', ''ironic-inspector_temp''],
           [''-N'', ''ironic-inspector_temp'']],
        logged := [IptablesFailed [''-N'', ''ironic-inspector_temp'']]\<rparr>)"
  by (simp add: run_defs example_defs example_mac_def example_base_def)

lemma idle_run:
  "update_filters idle_env (ready_state ()) =
     (None, (ready_state ())\<lparr>ENABLED := False,
        issued := example_swap [reject_rule ''ironic-inspector_temp'']\<rparr>)"
  by (simp add: run_defs example_defs)

text \<open>
  Claim C3, as amended. When a session is active or the fallback policy is set, the
  blacklist is the set of the inventory's port addresses minus the addresses of the
  active sessions. Unless the call takes the no-change shortcut (cache equal to that
  set and no remapping found), a call that returns normally has run one chain swap
  whose body is one \<open>DROP\<close> rule per blacklisted address, remapped, followed by a single
  \<open>ACCEPT\<close> rule, and has cached the blacklist.
\<close>

theorem update_filters_blacklist:
  assumes "manage_firewall (conf env)" and "INTERFACE s \<noteq> None"
    and "priv_should_enable_dhcp env" and "port_list env = Some ports"
    and "update_filters env s = (None, s')"
    and "\<not> (BLACKLIST_CACHE s = Some (to_blacklist_of env ports) \<and>
            fst (priv_ib_mac_to_rmac_mapping env (to_blacklist_of env ports) ports) = Inr Map.empty)"
    and "set (set_iter env (to_blacklist_of env ports)) = to_blacklist_of env ports"
    and "distinct (set_iter env (to_blacklist_of env ports))"
  shows "BLACKLIST_CACHE s' = Some (address ` set ports - active_macs env) \<and>
         (\<exists>mp lg base iface new main macs.
            priv_ib_mac_to_rmac_mapping env (address ` set ports - active_macs env) ports =
              (Inr mp, lg) \<and>
            BASE_COMMAND s = Some base \<and> INTERFACE s = Some iface \<and>
            NEW_CHAIN s = Some new \<and> CHAIN s = Some main \<and>
            set macs = address ` set ports - active_macs env \<and> distinct macs \<and>
            issued s' = issued s @
              map ((@) base)
                (swap_sequence iface new main
                   (map (\<lambda>mac. drop_rule new (remap mp mac)) macs @ [accept_rule new])))"
proof -
  from update_filters_rewritten [OF assms(1-6)] obtain mp lg base iface new main where
    f: "priv_ib_mac_to_rmac_mapping env (to_blacklist_of env ports) ports = (Inr mp, lg)"
       "BASE_COMMAND s = Some base" "INTERFACE s = Some iface"
       "NEW_CHAIN s = Some new" "CHAIN s = Some main"
       "BLACKLIST_CACHE s' = Some (to_blacklist_of env ports)"
    and iss: "issued s' = issued s @
             map ((@) base)
               (swap_sequence iface new main
                  (map (drop_rule new) (map (remap mp) (set_iter env (to_blacklist_of env ports))) @
                   [accept_rule new]))"
    by blast
  have bl: "to_blacklist_of env ports = address ` set ports - active_macs env"
    by (simp add: to_blacklist_of_def)
  from iss have iss': "issued s' = issued s @
             map ((@) base)
               (swap_sequence iface new main
                  (map (\<lambda>mac. drop_rule new (remap mp mac)) (set_iter env (to_blacklist_of env ports)) @
                   [accept_rule new]))"
    by (simp add: comp_def)
  from f iss' assms(7,8) show ?thesis
    unfolding bl by blast
qed

theorem update_filters_blacklist_witness:
  "manage_firewall (conf busy_env) \<and> INTERFACE (ready_state ()) \<noteq> None \<and>
   priv_should_enable_dhcp busy_env \<and> port_list busy_env = Some [example_port] \<and>
   BLACKLIST_CACHE (ready_state ()) = None \<and>
   set (set_iter busy_env {example_mac}) = {example_mac} \<and>
   distinct (set_iter busy_env {example_mac}) \<and>
   fst (update_filters busy_env (ready_state ())) = None \<and>
   BLACKLIST_CACHE (snd (update_filters busy_env (ready_state ()))) = Some {example_mac} \<and>
   issued (snd (update_filters busy_env (ready_state ()))) =
     example_swap [drop_rule ''ironic-inspector_temp'' example_mac,
                   accept_rule ''ironic-inspector_temp'']"
  using update_filters_blacklist [of busy_env "ready_state ()" "[example_port]"
          "snd (update_filters busy_env (ready_state ()))"]
        busy_run busy_env_facts
  by (simp add: ready_state_def)

theorem update_filters_blacklist_counterexample:
  "introspection_active busy_env \<and> port_list busy_env = Some [example_port] \<and>
   address ` set [example_port] - active_macs busy_env = {example_mac} \<and>
   fst (update_filters busy_env cached_state) = None \<and>
   issued (snd (update_filters busy_env cached_state)) = []"
  using busy_rerun [of "[]"]
  by (simp add: cached_state_def busy_env_def idle_env_def example_port_def ready_state_def
        port_list_def resolve_client_def)

text \<open>
  Claim C1, as amended. The cache holds the blacklist before remapping, and the
  shortcut also needs the remapping to be empty. So: after a call that computed a
  blacklist and returned normally, a second call whose blacklist before remapping is
  the same set, and which finds nothing to remap, runs no command and leaves the
  globals and the outside world as they are.
\<close>

theorem update_filters_unchanged:
  assumes "manage_firewall (conf env1)" and "INTERFACE s \<noteq> None"
    and "priv_should_enable_dhcp env1" and "port_list env1 = Some ports1"
    and "update_filters env1 s = (None, s1)"
    and "manage_firewall (conf env2)"
    and "priv_should_enable_dhcp env2" and "port_list env2 = Some ports2"
    and "to_blacklist_of env2 ports2 = to_blacklist_of env1 ports1"
    and "fst (priv_ib_mac_to_rmac_mapping env2 (to_blacklist_of env2 ports2) ports2) = Inr Map.empty"
  shows "fst (update_filters env2 s1) = None \<and>
         issued (snd (update_filters env2 s1)) = issued s1 \<and>
         world (snd (update_filters env2 s1)) = world s1 \<and>
         same_globals s1 (snd (update_filters env2 s1))"
proof -
  from update_filters_cache_after [OF assms(1-5)]
  have c: "BLACKLIST_CACHE s1 = Some (to_blacklist_of env1 ports1)"
    and i: "INTERFACE s1 \<noteq> None"
    using assms(2) by simp_all
  obtain lg where mp: "priv_ib_mac_to_rmac_mapping env2 (to_blacklist_of env2 ports2) ports2 =
      (Inr Map.empty, lg)"
    using assms(10)
    by (cases "priv_ib_mac_to_rmac_mapping env2 (to_blacklist_of env2 ports2) ports2") auto
  from c assms(9) have c2: "BLACKLIST_CACHE s1 = Some (to_blacklist_of env2 ports2)" by simp
  from update_filters_skip [OF assms(6) i assms(7,8) mp c2]
  show ?thesis by (simp add: same_globals_def)
qed

theorem update_filters_unchanged_witness:
  "manage_firewall (conf busy_env) \<and> INTERFACE (ready_state ()) \<noteq> None \<and>
   priv_should_enable_dhcp busy_env \<and> port_list busy_env = Some [example_port] \<and>
   fst (update_filters busy_env (ready_state ())) = None \<and>
   fst (priv_ib_mac_to_rmac_mapping busy_env (to_blacklist_of busy_env [example_port])
          [example_port]) = Inr Map.empty \<and>
   issued (snd (update_filters busy_env (snd (update_filters busy_env (ready_state ()))))) =
     issued (snd (update_filters busy_env (ready_state ())))"
  using update_filters_unchanged [of busy_env "ready_state ()" "[example_port]"
          "snd (update_filters busy_env (ready_state ()))" busy_env "[example_port]"]
        busy_run busy_env_facts
  by (simp add: ready_state_def)

subsection \<open>The examples, evaluated\<close>

lemma ib_guid_of_client_id: "drop (length ib_client_id - 23) ib_client_id = ib_guid"
  by (simp add: ib_client_id_def ib_guid_def)

lemma ib_client_id_nonempty: "ib_client_id \<noteq> []"
  by (simp add: ib_client_id_def)

lemma ib_guid_literal: "\<not> (\<exists>c \<in> set ib_guid. regex_special c)"
  by (simp add: ib_guid_def regex_special_def)

lemma neighs_file_ib0: "neighs_file ''ib0'' = ''/sys/class/net/ib0/eth/neighs''"
  by (simp add: neighs_file_def path_join_def)

lemma neighs_file_ib1: "neighs_file ''ib1'' = ''/sys/class/net/ib1/eth/neighs''"
  by (simp add: neighs_file_def path_join_def)

lemma search_emac1: "emac_search_literal ib_guid (neigh_line emac1) = Some emac1"
  by (simp add: neigh_line_def emac1_def ib_guid_def match_at_def emac_shape_def hexdig_def
        line_feed_def eval_nat_numeral)

lemma search_emac2: "emac_search_literal ib_guid (neigh_line emac2) = Some emac2"
  by (simp add: neigh_line_def emac2_def ib_guid_def match_at_def emac_shape_def hexdig_def
        line_feed_def eval_nat_numeral)

lemmas mapping_defs =
  priv_ib_mac_to_rmac_mapping_def port_step_def emac_search_def ib_port_def eoib_env_def
  idle_env_def example_conf_def to_blacklist_of_def priv_should_enable_dhcp_def
  neighs_file_ib0 neighs_file_ib1 ib_guid_of_client_id ib_guid_literal
  ib_client_id_nonempty port_list_def resolve_client_def Let_def

lemma self_env_facts:
  "manage_firewall (conf self_env)" "priv_should_enable_dhcp self_env"
  "port_list self_env = Some [ib_port emac1]"
  "to_blacklist_of self_env [ib_port emac1] = {emac1}"
  "set_iter self_env {emac1} = [emac1]"
  by (simp_all add: self_env_def mapping_defs)

lemma self_env_mapping:
  "priv_ib_mac_to_rmac_mapping self_env {emac1} [ib_port emac1] = (Inr [emac1 \<mapsto> emac1], [])"
  by (simp add: self_env_def mapping_defs search_emac1)

lemma self_run:
  "update_filters self_env ((ready_state ())\<lparr>BLACKLIST_CACHE := c, issued := xs\<rparr>) =
     (None, (ready_state ())\<lparr>BLACKLIST_CACHE := Some {emac1},
        issued := xs @ example_swap [drop_rule ''ironic-inspector_temp'' emac1,
                                     accept_rule ''ironic-inspector_temp'']\<rparr>)"
  unfolding update_filters_def
  by (simp add: self_env_facts self_env_mapping)
     (simp add: self_env_def eoib_env_def idle_env_def priv_temporary_chain_def
        priv_clean_up_def priv_iptables_def blacklist_body_def hook_args_def drop_args_def
        remap_def emac1_def ready_state_def example_defs resolve_client_def)

theorem update_filters_unchanged_counterexample:
  "fst (update_filters self_env (ready_state ())) = None \<and>
   BLACKLIST_CACHE (snd (update_filters self_env (ready_state ()))) = Some {emac1} \<and>
   to_blacklist_of self_env [ib_port emac1] = {emac1} \<and>
   fst (priv_ib_mac_to_rmac_mapping self_env {emac1} [ib_port emac1]) = Inr [emac1 \<mapsto> emac1] \<and>
   remap [emac1 \<mapsto> emac1] ` {emac1} = {emac1} \<and>
   issued (snd (update_filters self_env (snd (update_filters self_env (ready_state ()))))) =
     issued (snd (update_filters self_env (ready_state ()))) @
     example_swap [drop_rule ''ironic-inspector_temp'' emac1,
                   accept_rule ''ironic-inspector_temp'']"
proof -
  have r: "ready_state () = (ready_state ())\<lparr>BLACKLIST_CACHE := None, issued := []\<rparr>"
    by (simp add: ready_state_def)
  have one: "update_filters self_env (ready_state ()) =
     (None, (ready_state ())\<lparr>BLACKLIST_CACHE := Some {emac1},
        issued := example_swap [drop_rule ''ironic-inspector_temp'' emac1,
                                accept_rule ''ironic-inspector_temp'']\<rparr>)"
    using self_run [where c = None and xs = "[]"] by (simp add: r [symmetric])
  have "remap [emac1 \<mapsto> emac1] ` {emac1} = {emac1}"
    by (simp add: remap_def emac1_def)
  then show ?thesis
    by (simp add: one self_run self_env_facts self_env_mapping)
qed

subsection \<open>Interfaces without a neighbour table\<close>

lemma port_step_conf:
  "port_step (env\<lparr>conf := c\<rparr>) data bl p m = port_step env data bl p m"
  by (auto simp: port_step_def emac_search_def Let_def split: option.splits)

lemma ports_loop_conf:
  "ports_loop (env\<lparr>conf := c\<rparr>) data bl ps m = ports_loop env data bl ps m"
  by (induction ps arbitrary: m) (auto simp: port_step_conf split: sum.splits)

lemma ifaces_loop_conf:
  "ifaces_loop (env\<lparr>conf := c\<rparr>) bl ps is m = ifaces_loop env bl ps is m"
  by (induction "is" arbitrary: m)
     (auto simp: ports_loop_conf Let_def split: option.splits sum.splits)

lemma ifaces_loop_filter:
  "fst (ifaces_loop env bl ps is m) =
   fst (ifaces_loop env bl ps (filter (\<lambda>i. read_file env (neighs_file i) \<noteq> None) is) m)"
  by (induction "is" arbitrary: m) (auto simp: Let_def split: option.splits sum.splits)

lemma ifaces_loop_log:
  "fst (ifaces_loop env bl ps is m) = Inr m' \<Longrightarrow>
   snd (ifaces_loop env bl ps is m) =
     map NotEthernetOverInfiniBand (filter (\<lambda>i. read_file env (neighs_file i) = None) is)"
  by (induction "is" arbitrary: m) (auto simp: Let_def split: option.splits sum.splits)

lemma mapping_without_unreadable:
  "fst (priv_ib_mac_to_rmac_mapping (without_unreadable env) bl ports) =
   fst (priv_ib_mac_to_rmac_mapping env bl ports)"
  unfolding priv_ib_mac_to_rmac_mapping_def without_unreadable_def
  using ifaces_loop_filter [of env bl ports "ethoib_interfaces (conf env)" Map.empty]
  by (simp add: ifaces_loop_conf)

lemma same_but_log_refl: "same_but_log s s"
  by (simp add: same_but_log_def same_globals_def)

lemma priv_iptables_same_but_log:
  assumes "exec env' = exec env" and "text_output env' = text_output env" and "same_but_log s t"
  shows "fst (priv_iptables env' a i t) = fst (priv_iptables env a i s) \<and>
         same_but_log (snd (priv_iptables env a i s)) (snd (priv_iptables env' a i t))"
  using assms
  by (auto simp: priv_iptables_def same_but_log_def same_globals_def Let_def
           split: option.splits)

lemma run_cmds_same_but_log:
  assumes "exec env' = exec env" and "text_output env' = text_output env" and "same_but_log s t"
  shows "fst (run_cmds env' cs t) = fst (run_cmds env cs s) \<and>
         same_but_log (snd (run_cmds env cs s)) (snd (run_cmds env' cs t))"
  using assms(3)
proof (induction cs arbitrary: s t)
  case Nil
  then show ?case by simp
next
  case (Cons c cs)
  obtain r1 s1 where a: "priv_iptables env (fst c) (snd c) s = (r1, s1)"
    by (cases "priv_iptables env (fst c) (snd c) s")
  obtain r2 t1 where b: "priv_iptables env' (fst c) (snd c) t = (r2, t1)"
    by (cases "priv_iptables env' (fst c) (snd c) t")
  from priv_iptables_same_but_log [OF assms(1,2) Cons.prems, of "fst c" "snd c"] a b
  have r: "r2 = r1" and st: "same_but_log s1 t1" by simp_all
  show ?case
  proof (cases r1)
    case None
    with a b r Cons.IH [OF st] show ?thesis by simp
  next
    case (Some e)
    with a b r st show ?thesis by simp
  qed
qed

lemma without_unreadable_fields:
  "exec (without_unreadable env) = exec env"
  "manage_firewall (conf (without_unreadable env)) = manage_firewall (conf env)"
  "priv_should_enable_dhcp (without_unreadable env) = priv_should_enable_dhcp env"
  "port_list (without_unreadable env) = port_list env"
  "to_blacklist_of (without_unreadable env) ports = to_blacklist_of env ports"
  "set_iter (without_unreadable env) = set_iter env"
  "resolve_client (without_unreadable env) = resolve_client env"
  "text_output (without_unreadable env) = text_output env"
  by (simp_all add: without_unreadable_def priv_should_enable_dhcp_def to_blacklist_of_def
        port_list_def resolve_client_def split: option.splits)

lemma update_filters_without_unreadable:
  "fst (update_filters (without_unreadable env) s) = fst (update_filters env s) \<and>
   same_but_log (snd (update_filters env s)) (snd (update_filters (without_unreadable env) s))"
proof -
  let ?env' = "without_unreadable env"
  note wf = without_unreadable_fields [of env]
  have ex: "exec ?env' = exec env" by (rule wf)
  have tx: "text_output ?env' = text_output env" by (rule wf)
  show ?thesis
  proof (cases "manage_firewall (conf env) \<and> INTERFACE s \<noteq> None \<and> resolve_client env \<noteq> None")
    case False
    then show ?thesis by (auto simp: update_filters_def wf same_but_log_refl)
  next
    case True
    then have m: "manage_firewall (conf env)" and i: "INTERFACE s \<noteq> None"
      and c: "resolve_client env \<noteq> None" by simp_all
    from m have m': "manage_firewall (conf ?env')" by (simp add: wf)
    show ?thesis
    proof (cases "priv_should_enable_dhcp env")
      case False
      then have u: "update_filters env s = priv_disable_dhcp env s"
        "update_filters ?env' s = priv_disable_dhcp ?env' s"
        using m i c by (auto simp: update_filters_def wf)
      show ?thesis
      proof (cases "ENABLED s")
        case False
        then show ?thesis by (simp add: u priv_disable_dhcp_def same_but_log_refl)
      next
        case en: True
        let ?script = "swap_cmds (INTERFACE s) (NEW_CHAIN s) (CHAIN s) (reject_cmds (NEW_CHAIN s))"
        let ?s1 = "s\<lparr>BLACKLIST_CACHE := None\<rparr>"
        from run_cmds_same_but_log [OF ex tx same_but_log_refl, of ?script ?s1]
        show ?thesis
          unfolding u priv_disable_dhcp_cmds [OF en]
          by (cases "run_cmds env ?script ?s1"; cases "run_cmds ?env' ?script ?s1")
             (auto simp: same_but_log_def same_globals_def split: option.splits)
      qed
    next
      case en: True
      then have en': "priv_should_enable_dhcp ?env'" by (simp add: wf)
      show ?thesis
      proof (cases "port_list env")
        case None
        with m i en c show ?thesis by (auto simp: update_filters_def wf same_but_log_refl)
      next
        case (Some ports)
        then have p': "port_list ?env' = Some ports" by (simp add: wf)
        let ?bl = "to_blacklist_of env ports"
        obtain r lg where mp: "priv_ib_mac_to_rmac_mapping env ?bl ports = (r, lg)"
          by (cases "priv_ib_mac_to_rmac_mapping env ?bl ports")
        obtain r' lg' where mp': "priv_ib_mac_to_rmac_mapping ?env' ?bl ports = (r', lg')"
          by (cases "priv_ib_mac_to_rmac_mapping ?env' ?bl ports")
        from mapping_without_unreadable [of env ?bl ports] mp mp' have r: "r' = r" by simp
        have bl': "to_blacklist_of ?env' ports = ?bl" by (rule wf)
        show ?thesis
        proof (cases r)
          case (Inl e)
          from update_filters_mapping_error [OF m i en Some mp [unfolded Inl]]
               update_filters_mapping_error [OF m' i en' p', of e lg'] mp' r Inl bl'
          show ?thesis by (simp add: same_but_log_def same_globals_def)
        next
          case (Inr mm)
          show ?thesis
          proof (cases "BLACKLIST_CACHE s = Some ?bl \<and> mm = Map.empty")
            case True
            with update_filters_skip [OF m i en Some, of lg]
                 update_filters_skip [OF m' i en' p', of lg'] mp mp' r Inr bl'
            show ?thesis by (simp add: same_but_log_def same_globals_def)
          next
            case False
            let ?script = "swap_cmds (INTERFACE s) (NEW_CHAIN s) (CHAIN s)
                (blacklist_cmds (NEW_CHAIN s) (map (remap mm) (set_iter env ?bl)))"
            let ?s1 = "s\<lparr>logged := logged s @ lg, BLACKLIST_CACHE := None\<rparr>"
            let ?t1 = "s\<lparr>logged := logged s @ lg', BLACKLIST_CACHE := None\<rparr>"
            have st: "same_but_log ?s1 ?t1" by (simp add: same_but_log_def same_globals_def)
            have a: "update_filters env s =
                (case run_cmds env ?script ?s1 of
                   (Some e, s2) \<Rightarrow> (Some e, s2)
                 | (None, s2) \<Rightarrow> (None, s2\<lparr>ENABLED := True, BLACKLIST_CACHE := Some ?bl\<rparr>))"
              by (rule update_filters_rewrite [OF m i en Some mp [unfolded Inr] False])
            have b: "update_filters ?env' s =
                (case run_cmds ?env' ?script ?t1 of
                   (Some e, s2) \<Rightarrow> (Some e, s2)
                 | (None, s2) \<Rightarrow> (None, s2\<lparr>ENABLED := True, BLACKLIST_CACHE := Some ?bl\<rparr>))"
              using update_filters_rewrite [of ?env' s ports mm lg', unfolded bl' wf(6)]
                    m' i en' p' mp' r Inr False
              by simp
            from run_cmds_same_but_log [OF ex tx st, of ?script]
            show ?thesis
              unfolding a b
              by (cases "run_cmds env ?script ?s1"; cases "run_cmds ?env' ?script ?t1")
                 (auto simp: same_but_log_def same_globals_def split: option.splits)
          qed
        qed
      qed
    qed
  qed
qed

lemma neighs_file_eth0: "neighs_file ''eth0'' = ''/sys/class/net/eth0/eth/neighs''"
  by (simp add: neighs_file_def path_join_def)

lemma skip_env_mapping:
  "priv_ib_mac_to_rmac_mapping skip_env {ib_mac} [ib_port ib_mac] =
     (Inr [ib_mac \<mapsto> emac1], [NotEthernetOverInfiniBand ''eth0''])"
  by (simp add: skip_env_def mapping_defs neighs_file_eth0 search_emac1)

text \<open>
  Claim C10. An EoIB interface whose neighbour table cannot be read is logged and
  skipped: the mapping is the one computed from the readable interfaces alone, and a
  mapping that is returned comes with one log record per unreadable interface. The read
  failure does not reach \<open>update_filters\<close>: the call raises what it would raise, and
  leaves the state it would leave, log apart, if the unreadable interfaces were not
  configured at all.
\<close>

theorem unreadable_interfaces_skipped:
  "fst (priv_ib_mac_to_rmac_mapping env bl ports) =
     fst (priv_ib_mac_to_rmac_mapping (without_unreadable env) bl ports) \<and>
   (\<forall>m. fst (priv_ib_mac_to_rmac_mapping env bl ports) = Inr m \<longrightarrow>
      snd (priv_ib_mac_to_rmac_mapping env bl ports) =
        map NotEthernetOverInfiniBand
          (filter (\<lambda>i. read_file env (neighs_file i) = None) (ethoib_interfaces (conf env)))) \<and>
   fst (update_filters env s) = fst (update_filters (without_unreadable env) s) \<and>
   same_but_log (snd (update_filters env s)) (snd (update_filters (without_unreadable env) s))"
  using mapping_without_unreadable [of env bl ports]
        update_filters_without_unreadable [of env s]
        ifaces_loop_log [of env bl ports "ethoib_interfaces (conf env)" Map.empty]
  by (simp add: priv_ib_mac_to_rmac_mapping_def)

theorem unreadable_interfaces_skipped_witness:
  "read_file skip_env (neighs_file ''eth0'') = None \<and>
   ethoib_interfaces (conf skip_env) = [''eth0'', ''ib0''] \<and>
   fst (priv_ib_mac_to_rmac_mapping skip_env {ib_mac} [ib_port ib_mac]) =
     Inr [ib_mac \<mapsto> emac1] \<and>
   snd (priv_ib_mac_to_rmac_mapping skip_env {ib_mac} [ib_port ib_mac]) =
     [NotEthernetOverInfiniBand ''eth0''] \<and>
   fst (priv_ib_mac_to_rmac_mapping (without_unreadable skip_env) {ib_mac} [ib_port ib_mac]) =
     Inr [ib_mac \<mapsto> emac1]"
  using unreadable_interfaces_skipped [of skip_env "{ib_mac}" "[ib_port ib_mac]" "ready_state ()"]
        skip_env_mapping
  by (simp add: skip_env_def eoib_env_def idle_env_def example_conf_def neighs_file_eth0)

subsection \<open>The search of the neighbour table\<close>

lemma colon_pairs_length: "colon_pairs n s \<Longrightarrow> length s = 3 * n"
  by (induction n s rule: colon_pairs.induct) (auto split: list.splits)

lemma emac_shape_length: "emac_shape e \<Longrightarrow> length e = 17"
  by (auto simp: emac_shape_def split: list.splits dest: colon_pairs_length)

lemma starts_with_iff: "starts_with p d \<longleftrightarrow> (\<exists>r. d = p @ r)"
  by (induction p d rule: starts_with.induct) auto

lemma tail_match_iff:
  "tail_match guid r \<longleftrightarrow> (\<exists>x post. r = x @ guid @ post \<and> line_feed \<notin> set x)"
proof (induction r)
  case Nil
  then show ?case by (auto simp: starts_with_iff)
next
  case (Cons c cs)
  show ?case
  proof
    assume "tail_match guid (c # cs)"
    then consider "starts_with guid (c # cs)" | "c \<noteq> line_feed" "tail_match guid cs" by auto
    then show "\<exists>x post. c # cs = x @ guid @ post \<and> line_feed \<notin> set x"
    proof cases
      case 1
      then obtain r where "c # cs = guid @ r" by (auto simp: starts_with_iff)
      then have "c # cs = [] @ guid @ r \<and> line_feed \<notin> set []" by simp
      then show ?thesis by blast
    next
      case 2
      with Cons.IH obtain x post where "cs = x @ guid @ post" "line_feed \<notin> set x" by auto
      with 2 have "c # cs = (c # x) @ guid @ post \<and> line_feed \<notin> set (c # x)" by simp
      then show ?thesis by blast
    qed
  next
    assume "\<exists>x post. c # cs = x @ guid @ post \<and> line_feed \<notin> set x"
    then obtain x post where d: "c # cs = x @ guid @ post" and n: "line_feed \<notin> set x" by auto
    show "tail_match guid (c # cs)"
    proof (cases x)
      case Nil
      with d have "starts_with guid (c # cs)" by (auto simp: starts_with_iff)
      then show ?thesis by simp
    next
      case (Cons y ys)
      with d n have "c \<noteq> line_feed" "cs = ys @ guid @ post" "line_feed \<notin> set ys" by auto
      with Cons.IH show ?thesis by auto
    qed
  qed
qed

lemma match_at_unfold:
  "match_at guid (''EMAC='' @ r) \<longleftrightarrow>
     emac_shape (take 17 r) \<and> starts_with '' IMAC='' (drop 17 r) \<and>
     tail_match guid (drop 23 r)"
  by (simp add: match_at_def)

lemma match_at_iff:
  "match_at guid d \<longleftrightarrow>
     (\<exists>e x post. d = ''EMAC='' @ e @ '' IMAC='' @ x @ guid @ post \<and>
        emac_shape e \<and> line_feed \<notin> set x)"
proof
  assume m: "match_at guid d"
  then have "starts_with ''EMAC='' d" by (simp only: match_at_def)
  then obtain r1 where r1: "d = ''EMAC='' @ r1" by (auto simp only: starts_with_iff)
  from m have m': "emac_shape (take 17 r1)" "starts_with '' IMAC='' (drop 17 r1)"
    "tail_match guid (drop 23 r1)"
    unfolding r1 match_at_unfold by simp_all
  from m'(2) obtain r2 where r2: "drop 17 r1 = '' IMAC='' @ r2"
    by (auto simp only: starts_with_iff)
  have "drop 23 r1 = drop 6 (drop 17 r1)" by simp
  also have "\<dots> = r2" unfolding r2 by simp
  finally have "tail_match guid r2" using m'(3) by simp
  then obtain x post where x: "r2 = x @ guid @ post" "line_feed \<notin> set x"
    by (auto simp only: tail_match_iff)
  have "r1 = take 17 r1 @ drop 17 r1" by simp
  then have "r1 = take 17 r1 @ '' IMAC='' @ x @ guid @ post" using r2 x(1) by simp
  then have "d = ''EMAC='' @ take 17 r1 @ '' IMAC='' @ x @ guid @ post"
    using r1 by simp
  with m'(1) x(2) show "\<exists>e x post. d = ''EMAC='' @ e @ '' IMAC='' @ x @ guid @ post \<and>
        emac_shape e \<and> line_feed \<notin> set x" by blast
next
  assume "\<exists>e x post. d = ''EMAC='' @ e @ '' IMAC='' @ x @ guid @ post \<and>
        emac_shape e \<and> line_feed \<notin> set x"
  then obtain e x post where d: "d = ''EMAC='' @ e @ '' IMAC='' @ x @ guid @ post"
    and sh: "emac_shape e" and n: "line_feed \<notin> set x" by auto
  from sh have l: "length e = 17" by (rule emac_shape_length)
  have t: "tail_match guid (x @ guid @ post)" using n by (auto simp only: tail_match_iff)
  have a: "take 17 (e @ '' IMAC='' @ x @ guid @ post) = e" using l by simp
  have b: "drop 17 (e @ '' IMAC='' @ x @ guid @ post) = '' IMAC='' @ x @ guid @ post"
    using l by simp
  have c: "drop 23 (e @ '' IMAC='' @ x @ guid @ post) = x @ guid @ post"
    using l by simp
  have "starts_with '' IMAC='' ('' IMAC='' @ x @ guid @ post)"
    by (simp only: starts_with_iff) blast
  with sh t show "match_at guid d"
    unfolding d match_at_unfold a b c by simp
qed

lemma search_sound:
  "emac_search_literal guid d = Some e \<Longrightarrow> neigh_line_for guid e d"
proof (induction d)
  case Nil
  then show ?case by simp
next
  case (Cons c cs)
  show ?case
  proof (cases "match_at guid (c # cs)")
    case True
    then obtain e0 x post where d: "c # cs = ''EMAC='' @ e0 @ '' IMAC='' @ x @ guid @ post"
      and sh: "emac_shape e0" and n: "line_feed \<notin> set x"
      unfolding match_at_iff by blast
    from sh have "length e0 = 17" by (rule emac_shape_length)
    then have "take 17 (drop 5 (''EMAC='' @ e0 @ '' IMAC='' @ x @ guid @ post)) = e0" by simp
    with Cons.prems True d have "e = e0" by simp
    with d sh n have "c # cs = [] @ ''EMAC='' @ e @ '' IMAC='' @ x @ guid @ post \<and>
        emac_shape e \<and> line_feed \<notin> set x" by simp
    then show ?thesis unfolding neigh_line_for_def by blast
  next
    case False
    with Cons.prems have "emac_search_literal guid cs = Some e" by simp
    from Cons.IH [OF this] obtain pre x post where
      "cs = pre @ ''EMAC='' @ e @ '' IMAC='' @ x @ guid @ post" "emac_shape e" "line_feed \<notin> set x"
      unfolding neigh_line_for_def by blast
    then have "c # cs = (c # pre) @ ''EMAC='' @ e @ '' IMAC='' @ x @ guid @ post \<and>
        emac_shape e \<and> line_feed \<notin> set x" by simp
    then show ?thesis unfolding neigh_line_for_def by blast
  qed
qed

lemma search_at_match:
  "match_at guid d \<Longrightarrow> \<exists>e'. emac_search_literal guid (pre @ d) = Some e'"
proof (induction pre)
  case Nil
  then have "d \<noteq> []" by (auto simp: match_at_def)
  then obtain c cs where "d = c # cs" by (cases d) auto
  with Nil show ?case by simp
next
  case (Cons y ys)
  then show ?case by (cases "match_at guid (y # ys @ d)") auto
qed

lemma search_complete:
  assumes "neigh_line_for guid e d"
  shows "\<exists>e'. emac_search_literal guid d = Some e'"
proof -
  from assms obtain pre x post where d: "d = pre @ ''EMAC='' @ e @ '' IMAC='' @ x @ guid @ post"
    and sh: "emac_shape e" and n: "line_feed \<notin> set x"
    unfolding neigh_line_for_def by blast
  have "match_at guid (''EMAC='' @ e @ '' IMAC='' @ x @ guid @ post)"
    unfolding match_at_iff using sh n by blast
  from search_at_match [OF this, of pre] d show ?thesis by simp
qed

subsection \<open>The lines of a table that match\<close>

lemma match_at_group:
  assumes "d = ''EMAC='' @ e @ '' IMAC='' @ x @ guid @ post" and "emac_shape e"
  shows "take 17 (drop 5 d) = e"
proof -
  from assms(2) have "length e = 17" by (rule emac_shape_length)
  then show ?thesis unfolding assms(1) by simp
qed

lemma all_matches_sound:
  "e \<in> set (all_matches guid d) \<Longrightarrow> neigh_line_for guid e d"
proof (induction d)
  case Nil
  then show ?case by simp
next
  case (Cons c cs)
  from Cons.prems consider
      "match_at guid (c # cs)" "e = take 17 (drop 5 (c # cs))"
    | "e \<in> set (all_matches guid cs)"
    by (auto split: if_splits)
  then show ?case
  proof cases
    case 1
    from 1(1) obtain e0 x post where d: "c # cs = ''EMAC='' @ e0 @ '' IMAC='' @ x @ guid @ post"
      and sh: "emac_shape e0" and n: "line_feed \<notin> set x"
      unfolding match_at_iff by blast
    from match_at_group [OF d sh] 1(2) have "e = e0" by simp
    with d sh n have "c # cs = [] @ ''EMAC='' @ e @ '' IMAC='' @ x @ guid @ post \<and>
        emac_shape e \<and> line_feed \<notin> set x" by simp
    then show ?thesis unfolding neigh_line_for_def by blast
  next
    case 2
    from Cons.IH [OF this] obtain pre x post where
      "cs = pre @ ''EMAC='' @ e @ '' IMAC='' @ x @ guid @ post" "emac_shape e" "line_feed \<notin> set x"
      unfolding neigh_line_for_def by blast
    then have "c # cs = (c # pre) @ ''EMAC='' @ e @ '' IMAC='' @ x @ guid @ post \<and>
        emac_shape e \<and> line_feed \<notin> set x" by simp
    then show ?thesis unfolding neigh_line_for_def by blast
  qed
qed

lemma all_matches_at:
  assumes "match_at guid d"
  shows "take 17 (drop 5 d) \<in> set (all_matches guid (pre @ d))"
proof (induction pre)
  case Nil
  from assms have "d \<noteq> []" by (auto simp: match_at_def)
  then obtain c cs where "d = c # cs" by (cases d) auto
  with assms show ?case by simp
next
  case (Cons y ys)
  then show ?case by simp
qed

lemma neigh_line_for_iff:
  "neigh_line_for guid e d \<longleftrightarrow> e \<in> set (all_matches guid d)"
proof
  assume "neigh_line_for guid e d"
  then obtain pre x post where d: "d = pre @ ''EMAC='' @ e @ '' IMAC='' @ x @ guid @ post"
    and sh: "emac_shape e" and n: "line_feed \<notin> set x"
    unfolding neigh_line_for_def by blast
  let ?l = "''EMAC='' @ e @ '' IMAC='' @ x @ guid @ post"
  have m: "match_at guid ?l" unfolding match_at_iff using sh n by blast
  have "take 17 (drop 5 ?l) = e" using sh by (intro match_at_group) simp_all
  with all_matches_at [OF m, of pre] d show "e \<in> set (all_matches guid d)" by simp
next
  assume "e \<in> set (all_matches guid d)"
  then show "neigh_line_for guid e d" by (rule all_matches_sound)
qed

lemma search_first:
  "emac_search_literal guid d = (case all_matches guid d of [] \<Rightarrow> None | e # es \<Rightarrow> Some e)"
  by (induction d) auto

lemma all_matches_emac1: "all_matches ib_guid (neigh_line emac1) = [emac1]"
  by (simp add: neigh_line_def emac1_def ib_guid_def match_at_def emac_shape_def hexdig_def
        line_feed_def eval_nat_numeral)

lemma all_matches_emac2: "all_matches ib_guid (neigh_line emac2) = [emac2]"
  by (simp add: neigh_line_def emac2_def ib_guid_def match_at_def emac_shape_def hexdig_def
        line_feed_def eval_nat_numeral)

lemma table_entry_shape: "table_entry env ports a e \<Longrightarrow> emac_shape e"
  unfolding table_entry_def neigh_line_for_def by blast

lemma eoib_env_facts:
  "manage_firewall (conf (eoib_env ifs files a))" "priv_should_enable_dhcp (eoib_env ifs files a)"
  "port_list (eoib_env ifs files a) = Some [ib_port a]"
  "to_blacklist_of (eoib_env ifs files a) [ib_port a] = {a}"
  "set_iter (eoib_env ifs files a) {a} = [a]"
  "active_macs (eoib_env ifs files a) = {}"
  "ethoib_interfaces (conf (eoib_env ifs files a)) = ifs"
  "read_file (eoib_env ifs files a) = files"
  by (simp_all add: mapping_defs)

lemma eoib_run:
  assumes "priv_ib_mac_to_rmac_mapping (eoib_env ifs files a) {a} [ib_port a] = (Inr [a \<mapsto> e], [])"
    and "e \<noteq> []"
  shows "update_filters (eoib_env ifs files a) (ready_state ()) =
     (None, (ready_state ())\<lparr>BLACKLIST_CACHE := Some {a},
        issued := example_swap [drop_rule ''ironic-inspector_temp'' e,
                                accept_rule ''ironic-inspector_temp'']\<rparr>)"
  unfolding update_filters_def
  using assms(2)
  by (simp add: eoib_env_facts assms(1))
     (simp add: eoib_env_def idle_env_def priv_temporary_chain_def
        priv_clean_up_def priv_iptables_def blacklist_body_def hook_args_def drop_args_def
        remap_def ready_state_def example_defs resolve_client_def)

lemma one_env_mapping:
  "priv_ib_mac_to_rmac_mapping one_env {ib_mac} [ib_port ib_mac] = (Inr [ib_mac \<mapsto> emac1], [])"
  by (simp add: one_env_def mapping_defs search_emac1)

lemma two_env_mapping:
  "priv_ib_mac_to_rmac_mapping two_env {ib_mac} [ib_port ib_mac] = (Inr [ib_mac \<mapsto> emac2], [])"
  by (simp add: two_env_def mapping_defs search_emac1 search_emac2)

lemma one_env_entry: "table_entry one_env [ib_port ib_mac] ib_mac e \<longleftrightarrow> e = emac1"
  by (simp add: table_entry_def one_env_def eoib_env_facts neighs_file_ib0 ib_port_def
        ib_client_id_nonempty ib_guid_of_client_id neigh_line_for_iff all_matches_emac1)

lemma two_env_entry: "table_entry two_env [ib_port ib_mac] ib_mac emac1"
  by (simp add: table_entry_def two_env_def eoib_env_facts neighs_file_ib0 neighs_file_ib1
        ib_port_def ib_client_id_nonempty ib_guid_of_client_id neigh_line_for_iff
        all_matches_emac1)

subsection \<open>What the commands of a call do\<close>

lemma first_failure_less: "first_failure env base w lines = Some k \<Longrightarrow> k < length lines"
  by (induction lines arbitrary: w k) (auto split: if_splits)

lemma run_cmds_outcome:
  assumes "text_output env" and "BASE_COMMAND s = Some base"
    and "\<forall>c \<in> set script. None \<notin> set (fst c) \<and> snd c = best_effort (map the (fst c))"
  shows "run_cmds env script s = run_outcome env base (map (\<lambda>c. map the (fst c)) script) s"
  using assms(2,3)
proof (induction script arbitrary: s)
  case Nil
  then show ?case by (simp add: run_outcome_def)
next
  case (Cons c cs)
  let ?args = "map the (fst c)"
  let ?r = "exec env (world s) (base @ ?args)"
  let ?s1 = "s\<lparr>world := snd ?r, issued := issued s @ [base @ ?args]\<rparr>"
  from Cons.prems have nn: "None \<notin> set (fst c)" and fl: "snd c = best_effort ?args" by simp_all
  show ?case
  proof (cases "fst ?r \<or> best_effort ?args")
    case True
    have step: "priv_iptables env (fst c) (snd c) s = (None, ?s1)"
      using True assms(1) Cons.prems(1) nn fl by (auto simp: priv_iptables_def Let_def)
    have "run_cmds env cs ?s1 = run_outcome env base (map (\<lambda>c. map the (fst c)) cs) ?s1"
      using Cons.prems by (intro Cons.IH) simp_all
    with step True show ?thesis
      by (cases "first_failure env base (snd ?r) (map (\<lambda>c. map the (fst c)) cs)")
         (simp_all add: run_outcome_def)
  next
    case False
    have "priv_iptables env (fst c) (snd c) s =
            (Some CalledProcessError, ?s1\<lparr>logged := logged ?s1 @ [IptablesFailed ?args]\<rparr>)"
      using False assms(1) Cons.prems(1) nn fl by (auto simp: priv_iptables_def Let_def)
    with False show ?thesis by (simp add: run_outcome_def)
  qed
qed

text \<open>Where the output of a failed command is \<open>bytes\<close>, any failing command raises.\<close>

lemma priv_iptables_bytes:
  assumes "\<not> text_output env" and "BASE_COMMAND s = Some base" and "None \<notin> set args"
    and "\<not> fst (exec env (world s) (base @ map the args))"
  shows "priv_iptables env args ign s =
           (Some TypeError,
            s\<lparr>world := snd (exec env (world s) (base @ map the args)),
              issued := issued s @ [base @ map the args]\<rparr>)"
  using assms by (simp add: priv_iptables_def Let_def)

lemma swap_cmds_flags:
  assumes "\<forall>c \<in> set body. None \<notin> set (fst c) \<and> snd c = best_effort (map the (fst c))"
  shows "\<forall>c \<in> set (swap_cmds (Some iface) (Some new) (Some main_chain) body).
           None \<notin> set (fst c) \<and> snd c = best_effort (map the (fst c))"
  using assms by (auto simp: swap_cmds_def hook_args_def best_effort_def)

lemma blacklist_cmds_flags:
  "\<forall>c \<in> set (blacklist_cmds (Some new) ms).
     None \<notin> set (fst c) \<and> snd c = best_effort (map the (fst c))"
  by (auto simp: blacklist_cmds_def drop_args_def best_effort_def)

lemma reject_cmds_flags:
  "\<forall>c \<in> set (reject_cmds (Some new)).
     None \<notin> set (fst c) \<and> snd c = best_effort (map the (fst c))"
  by (auto simp: reject_cmds_def best_effort_def)

lemma swap_cmds_arg_lines:
  "map (\<lambda>c. map the (fst c)) (swap_cmds (Some iface) (Some chain) (Some main_chain) body) =
     swap_sequence iface chain main_chain (map (\<lambda>c. map the (fst c)) body)"
  by (simp add: swap_cmds_def swap_sequence_def hook_args_def hook_rule_def)

text \<open>
  A call that computes a blacklist and does not take the shortcut, and an idle call that
  finds DHCP enabled, as runs of command lines.
\<close>

lemma update_filters_apply:
  assumes "manage_firewall (conf env)" and "text_output env"
    and "BASE_COMMAND s = Some base" and "INTERFACE s = Some iface"
    and "NEW_CHAIN s = Some new" and "CHAIN s = Some main_chain"
    and "priv_should_enable_dhcp env" and "port_list env = Some ports"
    and "priv_ib_mac_to_rmac_mapping env (to_blacklist_of env ports) ports = (Inr mp, lg)"
    and "\<not> (BLACKLIST_CACHE s = Some (to_blacklist_of env ports) \<and> mp = Map.empty)"
  shows "update_filters env s =
           (case run_outcome env base
                   (swap_sequence iface new main_chain
                      (map (\<lambda>mac. drop_rule new (remap mp mac))
                         (set_iter env (to_blacklist_of env ports)) @ [accept_rule new]))
                   (s\<lparr>logged := logged s @ lg, BLACKLIST_CACHE := None\<rparr>) of
              (Some e, s2) \<Rightarrow> (Some e, s2)
            | (None, s2) \<Rightarrow>
                (None, s2\<lparr>ENABLED := True,
                          BLACKLIST_CACHE := Some (to_blacklist_of env ports)\<rparr>))"
proof -
  let ?bl = "to_blacklist_of env ports"
  let ?s1 = "s\<lparr>logged := logged s @ lg, BLACKLIST_CACHE := None\<rparr>"
  let ?script = "swap_cmds (Some iface) (Some new) (Some main_chain)
                   (blacklist_cmds (Some new) (map (remap mp) (set_iter env ?bl)))"
  have i: "INTERFACE s \<noteq> None" using assms(4) by simp
  have fl: "\<forall>c \<in> set ?script. None \<notin> set (fst c) \<and> snd c = best_effort (map the (fst c))"
    by (rule swap_cmds_flags) (rule blacklist_cmds_flags)
  have b: "BASE_COMMAND ?s1 = Some base" using assms(3) by simp
  have lines: "map (\<lambda>c. map the (fst c)) ?script =
      swap_sequence iface new main_chain
        (map (\<lambda>mac. drop_rule new (remap mp mac)) (set_iter env ?bl) @ [accept_rule new])"
    by (simp add: swap_cmds_arg_lines blacklist_cmds_lines comp_def)
  from run_cmds_outcome [OF assms(2) b fl]
  have "run_cmds env ?script ?s1 =
      run_outcome env base
        (swap_sequence iface new main_chain
           (map (\<lambda>mac. drop_rule new (remap mp mac)) (set_iter env ?bl) @ [accept_rule new])) ?s1"
    by (simp only: lines)
  with update_filters_rewrite [OF assms(1) i assms(7,8,9,10)] assms(4,5,6)
  show ?thesis by simp
qed

lemma update_filters_disable:
  assumes "manage_firewall (conf env)" and "text_output env"
    and "BASE_COMMAND s = Some base" and "INTERFACE s = Some iface"
    and "NEW_CHAIN s = Some new" and "CHAIN s = Some main_chain"
    and "\<not> priv_should_enable_dhcp env" and "resolve_client env \<noteq> None" and "ENABLED s"
  shows "update_filters env s =
           (case run_outcome env base (swap_sequence iface new main_chain [reject_rule new])
                   (s\<lparr>BLACKLIST_CACHE := None\<rparr>) of
              (Some e, s2) \<Rightarrow> (Some e, s2)
            | (None, s2) \<Rightarrow> (None, s2\<lparr>ENABLED := False\<rparr>))"
proof -
  let ?s1 = "s\<lparr>BLACKLIST_CACHE := None\<rparr>"
  let ?script = "swap_cmds (Some iface) (Some new) (Some main_chain) (reject_cmds (Some new))"
  have fl: "\<forall>c \<in> set ?script. None \<notin> set (fst c) \<and> snd c = best_effort (map the (fst c))"
    by (rule swap_cmds_flags) (rule reject_cmds_flags)
  have b: "BASE_COMMAND ?s1 = Some base" using assms(3) by simp
  have lines: "map (\<lambda>c. map the (fst c)) ?script =
      swap_sequence iface new main_chain [reject_rule new]"
    by (simp add: swap_cmds_arg_lines reject_cmds_lines)
  from run_cmds_outcome [OF assms(2) b fl]
  have "run_cmds env ?script ?s1 =
      run_outcome env base (swap_sequence iface new main_chain [reject_rule new]) ?s1"
    by (simp only: lines)
  moreover have "update_filters env s = priv_disable_dhcp env s"
    using assms(1,4,7,8) by (auto simp: update_filters_def)
  ultimately show ?thesis
    using priv_disable_dhcp_cmds [OF assms(9), of env] assms(4,5,6) by simp
qed

text \<open>A call that rewrites the rules issues the first command of the swap, whatever follows.\<close>

lemma update_filters_starts_swap:
  assumes "manage_firewall (conf env)"
    and "BASE_COMMAND s = Some base" and "INTERFACE s = Some iface"
    and "NEW_CHAIN s = Some new" and "CHAIN s = Some main_chain"
    and "priv_should_enable_dhcp env" and "port_list env = Some ports"
    and "priv_ib_mac_to_rmac_mapping env (to_blacklist_of env ports) ports = (Inr mp, lg)"
    and "\<not> (BLACKLIST_CACHE s = Some (to_blacklist_of env ports) \<and> mp = Map.empty)"
  shows "\<exists>xs. issued (snd (update_filters env s)) =
           issued s @ (base @ ''-D'' # hook_rule iface new) # xs"
proof -
  let ?bl = "to_blacklist_of env ports"
  let ?s1 = "s\<lparr>logged := logged s @ lg, BLACKLIST_CACHE := None\<rparr>"
  let ?first = "(Some ''-D'' # hook_args (Some iface) (Some new), True)"
  let ?cmd = "base @ ''-D'' # hook_rule iface new"
  obtain rest where script: "swap_cmds (INTERFACE s) (NEW_CHAIN s) (CHAIN s)
      (blacklist_cmds (NEW_CHAIN s) (map (remap mp) (set_iter env ?bl))) = ?first # rest"
    using assms(3,4,5) by (simp add: swap_cmds_def)
  let ?s2 = "?s1\<lparr>world := snd (exec env (world s) ?cmd), issued := issued s @ [?cmd]\<rparr>"
  have i: "INTERFACE s \<noteq> None" using assms(3) by simp
  have "\<exists>r. priv_iptables env (fst ?first) (snd ?first) ?s1 = (r, ?s2)"
    using assms(2) by (simp add: priv_iptables_def Let_def hook_args_def hook_rule_def)
  then obtain r where one: "priv_iptables env (fst ?first) (snd ?first) ?s1 = (r, ?s2)" by blast
  obtain r2 s3 where two: "run_cmds env rest ?s2 = (r2, s3)" by (cases "run_cmds env rest ?s2")
  from run_cmds_issued [OF two] obtain ys where ys: "issued s3 = issued ?s2 @ ys" by blast
  have "issued (snd (run_cmds env (?first # rest) ?s1)) = issued s @ ?cmd # ys \<or>
        issued (snd (run_cmds env (?first # rest) ?s1)) = issued s @ ?cmd # []"
    using one two ys by (cases r) simp_all
  then obtain xs where "issued (snd (run_cmds env (?first # rest) ?s1)) = issued s @ ?cmd # xs"
    by blast
  with update_filters_rewrite [OF assms(1) i assms(6,7,8,9)] script show ?thesis
    by (cases "run_cmds env (?first # rest) ?s1")
       (auto simp del: run_cmds.simps split: option.splits)
qed

text \<open>
  Claim C6, as amended. Let no session be active and no fallback policy be set, and let
  the call have a client (passed in, or returned by the factory). If DHCP is marked
  disabled, the call runs no command and changes nothing. If it is marked enabled, the
  call runs the chain swap whose body is the single \<open>REJECT\<close> rule, where the output
  of a failed command is text: when every command other than the best-effort ones exits
  with status zero, all the commands have been run on the packet filter, in order, and
  DHCP is marked disabled; at the first other failure the call logs it and raises, and
  DHCP stays marked enabled. After an idle call that has returned, every further idle
  call, of whatever environment, is a no-op.
\<close>

theorem update_filters_idle:
  assumes "manage_firewall (conf env)" and "\<not> priv_should_enable_dhcp env"
    and "resolve_client env \<noteq> None" and "text_output env"
    and "BASE_COMMAND s = Some base" and "INTERFACE s = Some iface"
    and "NEW_CHAIN s = Some new" and "CHAIN s = Some main_chain"
    and "lines = swap_sequence iface new main_chain [reject_rule new]"
  shows "(\<not> ENABLED s \<longrightarrow> update_filters env s = (None, s)) \<and>
         (ENABLED s \<and> first_failure env base (world s) lines = None \<longrightarrow>
            update_filters env s =
              (None, s\<lparr>BLACKLIST_CACHE := None, ENABLED := False,
                       world := run_lines env base (world s) lines,
                       issued := issued s @ map ((@) base) lines\<rparr>)) \<and>
         (\<forall>k. ENABLED s \<and> first_failure env base (world s) lines = Some k \<longrightarrow>
            update_filters env s =
              (Some CalledProcessError,
               s\<lparr>BLACKLIST_CACHE := None,
                 world := run_lines env base (world s) (take (Suc k) lines),
                 issued := issued s @ map ((@) base) (take (Suc k) lines),
                 logged := logged s @ [IptablesFailed (lines ! k)]\<rparr>)) \<and>
         (\<forall>s'. update_filters env s = (None, s') \<longrightarrow>
            \<not> ENABLED s' \<and>
            (\<forall>env'. manage_firewall (conf env') \<and> \<not> priv_should_enable_dhcp env' \<and>
                    resolve_client env' \<noteq> None \<longrightarrow>
               update_filters env' s' = (None, s')))"
proof -
  have off: "update_filters env' t = (None, t)"
    if "manage_firewall (conf env')" "\<not> priv_should_enable_dhcp env'"
       "resolve_client env' \<noteq> None" "INTERFACE t \<noteq> None" "\<not> ENABLED t" for env' and t :: "'a state"
    using that by (auto simp: update_filters_def priv_disable_dhcp_def)
  have i: "INTERFACE s \<noteq> None" using assms(6) by simp
  note run = update_filters_disable [OF assms(1,4,5,6,7,8,2,3), folded assms(9)]
  have a: "\<not> ENABLED s \<longrightarrow> update_filters env s = (None, s)"
    using off [OF assms(1,2,3) i] by simp
  have b: "ENABLED s \<and> first_failure env base (world s) lines = None \<longrightarrow>
            update_filters env s =
              (None, s\<lparr>BLACKLIST_CACHE := None, ENABLED := False,
                       world := run_lines env base (world s) lines,
                       issued := issued s @ map ((@) base) lines\<rparr>)"
    using run by (simp add: run_outcome_def)
  have c: "\<forall>k. ENABLED s \<and> first_failure env base (world s) lines = Some k \<longrightarrow>
            update_filters env s =
              (Some CalledProcessError,
               s\<lparr>BLACKLIST_CACHE := None,
                 world := run_lines env base (world s) (take (Suc k) lines),
                 issued := issued s @ map ((@) base) (take (Suc k) lines),
                 logged := logged s @ [IptablesFailed (lines ! k)]\<rparr>)"
    using run by (simp add: run_outcome_def)
  have d: "\<not> ENABLED s' \<and>
            (\<forall>env'. manage_firewall (conf env') \<and> \<not> priv_should_enable_dhcp env' \<and>
                    resolve_client env' \<noteq> None \<longrightarrow>
               update_filters env' s' = (None, s'))"
    if ret: "update_filters env s = (None, s')" for s'
  proof (cases "ENABLED s")
    case False
    with a ret have "s' = s" by simp
    with False off i show ?thesis by simp
  next
    case True
    show ?thesis
    proof (cases "first_failure env base (world s) lines")
      case None
      with b True ret have "\<not> ENABLED s'" "INTERFACE s' \<noteq> None" using i by auto
      with off show ?thesis by simp
    next
      case (Some k)
      with c True ret show ?thesis by simp
    qed
  qed
  from a b c d show ?thesis by blast
qed

text \<open>
  Claim C4, as amended. Take a call that computes a blacklist and does not return at
  the no-change shortcut, where the output of a failed command is text. If every command
  of the swap other than the best-effort ones (\<open>-D\<close>, \<open>-F\<close>, \<open>-X\<close>, whose
  failures are passed over) exits with status zero, the call has run all the commands
  on the packet filter, in order, has cached the blacklist and has marked DHCP enabled.
  At the first other failure the call logs it and raises, having run the commands up to
  that one; the cache is left unknown and the mark is left as it was. After such a
  failure, the next call that computes a blacklist, of whatever environment, does not
  return at the shortcut: it starts the swap again.
\<close>

theorem update_filters_cache:
  assumes "manage_firewall (conf env)" and "text_output env"
    and "BASE_COMMAND s = Some base" and "INTERFACE s = Some iface"
    and "NEW_CHAIN s = Some new" and "CHAIN s = Some main_chain"
    and "priv_should_enable_dhcp env" and "port_list env = Some ports"
    and "priv_ib_mac_to_rmac_mapping env (to_blacklist_of env ports) ports = (Inr mp, lg)"
    and "\<not> (BLACKLIST_CACHE s = Some (to_blacklist_of env ports) \<and> mp = Map.empty)"
    and "lines = swap_sequence iface new main_chain
                   (map (\<lambda>mac. drop_rule new (remap mp mac))
                      (set_iter env (to_blacklist_of env ports)) @ [accept_rule new])"
  shows "(first_failure env base (world s) lines = None \<longrightarrow>
            update_filters env s =
              (None, s\<lparr>logged := logged s @ lg,
                       world := run_lines env base (world s) lines,
                       issued := issued s @ map ((@) base) lines,
                       ENABLED := True,
                       BLACKLIST_CACHE := Some (to_blacklist_of env ports)\<rparr>)) \<and>
         (\<forall>k. first_failure env base (world s) lines = Some k \<longrightarrow>
            update_filters env s =
              (Some CalledProcessError,
               s\<lparr>logged := logged s @ lg @ [IptablesFailed (lines ! k)],
                 world := run_lines env base (world s) (take (Suc k) lines),
                 issued := issued s @ map ((@) base) (take (Suc k) lines),
                 BLACKLIST_CACHE := None\<rparr>) \<and>
            (\<forall>env2 ports2 mp2.
               manage_firewall (conf env2) \<and> priv_should_enable_dhcp env2 \<and>
               port_list env2 = Some ports2 \<and>
               fst (priv_ib_mac_to_rmac_mapping env2 (to_blacklist_of env2 ports2) ports2) =
                 Inr mp2 \<longrightarrow>
               (\<exists>xs. issued (snd (update_filters env2 (snd (update_filters env s)))) =
                  issued (snd (update_filters env s)) @
                  (base @ ''-D'' # hook_rule iface new) # xs)))"
proof (intro conjI allI impI)
  note run = update_filters_apply [OF assms(1-10), folded assms(11)]
  {
    assume "first_failure env base (world s) lines = None"
    with run show "update_filters env s =
              (None, s\<lparr>logged := logged s @ lg,
                       world := run_lines env base (world s) lines,
                       issued := issued s @ map ((@) base) lines,
                       ENABLED := True,
                       BLACKLIST_CACHE := Some (to_blacklist_of env ports)\<rparr>)"
      by (simp add: run_outcome_def)
  next
    fix k
    assume k: "first_failure env base (world s) lines = Some k"
    with run show f: "update_filters env s =
              (Some CalledProcessError,
               s\<lparr>logged := logged s @ lg @ [IptablesFailed (lines ! k)],
                 world := run_lines env base (world s) (take (Suc k) lines),
                 issued := issued s @ map ((@) base) (take (Suc k) lines),
                 BLACKLIST_CACHE := None\<rparr>)"
      by (simp add: run_outcome_def)
    fix env2 :: "'a env" and ports2 mp2
    assume n: "manage_firewall (conf env2) \<and> priv_should_enable_dhcp env2 \<and>
               port_list env2 = Some ports2 \<and>
               fst (priv_ib_mac_to_rmac_mapping env2 (to_blacklist_of env2 ports2) ports2) =
                 Inr mp2"
    let ?s' = "snd (update_filters env s)"
    obtain lg2 where m2: "priv_ib_mac_to_rmac_mapping env2 (to_blacklist_of env2 ports2) ports2 =
        (Inr mp2, lg2)"
      using n by (cases "priv_ib_mac_to_rmac_mapping env2 (to_blacklist_of env2 ports2) ports2") auto
    have g: "BASE_COMMAND ?s' = Some base" "INTERFACE ?s' = Some iface"
      "NEW_CHAIN ?s' = Some new" "CHAIN ?s' = Some main_chain" "BLACKLIST_CACHE ?s' = None"
      using f assms(3-6) by simp_all
    then have ns: "\<not> (BLACKLIST_CACHE ?s' = Some (to_blacklist_of env2 ports2) \<and> mp2 = Map.empty)"
      by simp
    from n have n1: "manage_firewall (conf env2)" and n2: "priv_should_enable_dhcp env2"
      and n3: "port_list env2 = Some ports2" by simp_all
    from update_filters_starts_swap [OF n1 g(1-4) n2 n3 m2 ns]
    show "\<exists>xs. issued (snd (update_filters env2 ?s')) =
            issued ?s' @ (base @ ''-D'' # hook_rule iface new) # xs" .
  }
qed

lemmas line_defs =
  swap_sequence_def hook_rule_def drop_rule_def accept_rule_def reject_rule_def
  best_effort_def example_base_def example_mac_def

lemma idle_env_facts:
  "manage_firewall (conf idle_env)" "\<not> priv_should_enable_dhcp idle_env"
  "resolve_client idle_env \<noteq> None" "text_output idle_env"
  by (simp_all add: run_defs example_defs)

lemma broken_idle_env_facts:
  "manage_firewall (conf broken_idle_env)" "\<not> priv_should_enable_dhcp broken_idle_env"
  "resolve_client broken_idle_env \<noteq> None" "text_output broken_idle_env"
  by (simp_all add: run_defs example_defs broken_idle_env_def)

lemma ready_state_facts:
  "BASE_COMMAND (ready_state w) = Some example_base"
  "INTERFACE (ready_state w) = Some ''br-ctlplane''"
  "NEW_CHAIN (ready_state w) = Some ''ironic-inspector_temp''"
  "CHAIN (ready_state w) = Some ''ironic-inspector''"
  "BLACKLIST_CACHE (ready_state w) = None" "ENABLED (ready_state w)"
  "world (ready_state w) = w" "issued (ready_state w) = []" "logged (ready_state w) = []"
  by (simp_all add: ready_state_def)

lemma broken_idle_failure:
  "first_failure broken_idle_env example_base ()
     (swap_sequence ''br-ctlplane'' ''ironic-inspector_temp'' ''ironic-inspector''
        [reject_rule ''ironic-inspector_temp'']) = Some 3"
  by (simp add: broken_idle_env_def idle_env_def line_defs)

lemma table_env_idle_facts:
  "manage_firewall (conf (table_env idle_env))" "\<not> priv_should_enable_dhcp (table_env idle_env)"
  "resolve_client (table_env idle_env) \<noteq> None" "text_output (table_env idle_env)"
  by (simp_all add: table_env_def run_defs example_defs)

lemma idle_on_tables:
  "first_failure (table_env idle_env) example_base fresh_table
     (swap_sequence ''br-ctlplane'' ''ironic-inspector_temp'' ''ironic-inspector''
        [reject_rule ''ironic-inspector_temp'']) = None"
  "input (run_lines (table_env idle_env) example_base fresh_table
     (swap_sequence ''br-ctlplane'' ''ironic-inspector_temp'' ''ironic-inspector''
        [reject_rule ''ironic-inspector_temp''])) =
     [hook_match ''br-ctlplane'' @ [''ironic-inspector'']]"
  "chains (run_lines (table_env idle_env) example_base fresh_table
     (swap_sequence ''br-ctlplane'' ''ironic-inspector_temp'' ''ironic-inspector''
        [reject_rule ''ironic-inspector_temp''])) ''ironic-inspector'' =
     Some [[''-j'', ''REJECT'']]"
  by (simp_all add: table_env_def idle_env_def line_defs tbl_cmd_def fresh_table_def
        refers_def hook_match_def)

theorem update_filters_idle_witness:
  "update_filters idle_env (ready_state ()) = (None, disabled_state) \<and>
   \<not> ENABLED disabled_state \<and>
   issued disabled_state = example_swap [reject_rule ''ironic-inspector_temp''] \<and>
   update_filters idle_env disabled_state = (None, disabled_state) \<and>
   update_filters broken_idle_env (ready_state ()) = (Some CalledProcessError, broken_state) \<and>
   ENABLED broken_state \<and>
   fst (update_filters (table_env idle_env) (ready_state fresh_table)) = None \<and>
   input (world (snd (update_filters (table_env idle_env) (ready_state fresh_table)))) =
     [hook_match ''br-ctlplane'' @ [''ironic-inspector'']] \<and>
   chains (world (snd (update_filters (table_env idle_env) (ready_state fresh_table))))
     ''ironic-inspector'' = Some [[''-j'', ''REJECT'']]"
proof -
  let ?lines = "swap_sequence ''br-ctlplane'' ''ironic-inspector_temp'' ''ironic-inspector''
                  [reject_rule ''ironic-inspector_temp'']"
  have ok: "first_failure idle_env example_base () ?lines = None"
    by (simp add: idle_env_def line_defs)
  have d: "BASE_COMMAND disabled_state = Some example_base"
    "INTERFACE disabled_state = Some ''br-ctlplane''"
    "NEW_CHAIN disabled_state = Some ''ironic-inspector_temp''"
    "CHAIN disabled_state = Some ''ironic-inspector''" "\<not> ENABLED disabled_state"
    by (simp_all add: disabled_state_def ready_state_def)
  from update_filters_idle [OF idle_env_facts ready_state_facts(1-4) refl] ok
  have one: "update_filters idle_env (ready_state ()) = (None, disabled_state)"
    by (simp add: ready_state_facts)
       (simp add: disabled_state_def ready_state_def example_swap_def)
  from update_filters_idle [OF idle_env_facts d(1-4) refl] d(5)
  have two: "update_filters idle_env disabled_state = (None, disabled_state)" by simp
  from update_filters_idle [OF broken_idle_env_facts ready_state_facts(1-4) refl]
    broken_idle_failure
  have three: "update_filters broken_idle_env (ready_state ()) =
      (Some CalledProcessError, broken_state)"
    by (simp add: ready_state_facts)
       (simp add: broken_state_def ready_state_def line_defs)
  from update_filters_idle [OF table_env_idle_facts ready_state_facts(1-4) refl]
    idle_on_tables(1)
  have four: "update_filters (table_env idle_env) (ready_state fresh_table) =
      (None, (ready_state fresh_table)\<lparr>BLACKLIST_CACHE := None, ENABLED := False,
         world := run_lines (table_env idle_env) example_base fresh_table ?lines,
         issued := issued (ready_state fresh_table) @ map ((@) example_base) ?lines\<rparr>)"
    by (simp add: ready_state_facts)
  have e: "ENABLED broken_state"
    "issued disabled_state = example_swap [reject_rule ''ironic-inspector_temp'']"
    by (simp_all add: disabled_state_def broken_state_def ready_state_def)
  from one two three d(5) e show ?thesis
    by (simp add: four idle_on_tables)
qed

theorem update_filters_idle_counterexample:
  "\<not> priv_should_enable_dhcp clientless_env \<and> ENABLED (ready_state ()) \<and>
   update_filters clientless_env (ready_state ()) = (Some ClientError, ready_state ()) \<and>
   \<not> priv_should_enable_dhcp broken_idle_env \<and> text_output broken_idle_env \<and>
   update_filters broken_idle_env (ready_state ()) = (Some CalledProcessError, broken_state) \<and>
   ENABLED broken_state \<and>
   last (issued broken_state) = example_base @ [''-N'', ''ironic-inspector_temp'']"
  by (simp add: run_defs example_defs clientless_env_def broken_idle_env_def broken_state_def
        example_base_def)

lemma busy_env_text: "text_output busy_env" "text_output broken_env" "text_output strict_env"
  by (simp_all add: example_defs)

lemma broken_env_facts:
  "manage_firewall (conf broken_env)" "priv_should_enable_dhcp broken_env"
  "port_list broken_env = Some [example_port]"
  "to_blacklist_of broken_env [example_port] = {example_mac}"
  "priv_ib_mac_to_rmac_mapping broken_env {example_mac} [example_port] = (Inr Map.empty, [])"
  "set_iter broken_env {example_mac} = [example_mac]"
  by (simp_all add: run_defs example_defs)

lemma broken_failure:
  "first_failure broken_env example_base ()
     (swap_sequence ''br-ctlplane'' ''ironic-inspector_temp'' ''ironic-inspector''
        [drop_rule ''ironic-inspector_temp'' example_mac,
         accept_rule ''ironic-inspector_temp'']) = Some 3"
  by (simp add: broken_env_def busy_env_def idle_env_def line_defs)

lemma busy_success:
  "first_failure busy_env example_base ()
     (swap_sequence ''br-ctlplane'' ''ironic-inspector_temp'' ''ironic-inspector''
        [drop_rule ''ironic-inspector_temp'' example_mac,
         accept_rule ''ironic-inspector_temp'']) = None"
  by (simp add: busy_env_def idle_env_def line_defs)

theorem update_filters_cache_witness:
  "update_filters busy_env (ready_state ()) =
     (None, (ready_state ())\<lparr>BLACKLIST_CACHE := Some {example_mac},
        issued := example_swap [drop_rule ''ironic-inspector_temp'' example_mac,
                                accept_rule ''ironic-inspector_temp'']\<rparr>) \<and>
   update_filters broken_env (ready_state ()) = (Some CalledProcessError, broken_state) \<and>
   BLACKLIST_CACHE broken_state = None \<and>
   (\<exists>xs. issued (snd (update_filters busy_env broken_state)) =
      issued broken_state @
      (example_base @ ''-D'' # hook_rule ''br-ctlplane'' ''ironic-inspector_temp'') # xs)"
proof -
  let ?lines = "swap_sequence ''br-ctlplane'' ''ironic-inspector_temp'' ''ironic-inspector''
        [drop_rule ''ironic-inspector_temp'' example_mac,
         accept_rule ''ironic-inspector_temp'']"
  have l: "?lines = swap_sequence ''br-ctlplane'' ''ironic-inspector_temp'' ''ironic-inspector''
        (map (\<lambda>mac. drop_rule ''ironic-inspector_temp'' (remap Map.empty mac))
           (set_iter busy_env (to_blacklist_of busy_env [example_port])) @
         [accept_rule ''ironic-inspector_temp''])"
    "?lines = swap_sequence ''br-ctlplane'' ''ironic-inspector_temp'' ''ironic-inspector''
        (map (\<lambda>mac. drop_rule ''ironic-inspector_temp'' (remap Map.empty mac))
           (set_iter broken_env (to_blacklist_of broken_env [example_port])) @
         [accept_rule ''ironic-inspector_temp''])"
    by (simp_all add: busy_env_facts broken_env_facts remap_def)
  have h: "priv_ib_mac_to_rmac_mapping busy_env (to_blacklist_of busy_env [example_port])
             [example_port] = (Inr Map.empty, [])"
    "priv_ib_mac_to_rmac_mapping broken_env (to_blacklist_of broken_env [example_port])
             [example_port] = (Inr Map.empty, [])"
    by (simp_all add: busy_env_facts broken_env_facts)
  have ns: "\<not> (BLACKLIST_CACHE (ready_state ()) = Some (to_blacklist_of busy_env [example_port]) \<and>
              Map.empty = (Map.empty :: mac \<rightharpoonup> mac))"
    "\<not> (BLACKLIST_CACHE (ready_state ()) = Some (to_blacklist_of broken_env [example_port]) \<and>
              Map.empty = (Map.empty :: mac \<rightharpoonup> mac))"
    by (simp_all add: ready_state_facts)
  note good = update_filters_cache [OF busy_env_facts(1) busy_env_text(1) ready_state_facts(1-4)
      busy_env_facts(2,3) h(1) ns(1) l(1)]
  note bad = update_filters_cache [OF broken_env_facts(1) busy_env_text(2) ready_state_facts(1-4)
      broken_env_facts(2,3) h(2) ns(2) l(2)]
  have f: "first_failure broken_env example_base (world (ready_state ())) ?lines = Some 3"
    using broken_failure by (simp add: ready_state_facts)
  from good busy_success
  have one: "update_filters busy_env (ready_state ()) =
     (None, (ready_state ())\<lparr>BLACKLIST_CACHE := Some {example_mac},
        issued := example_swap [drop_rule ''ironic-inspector_temp'' example_mac,
                                accept_rule ''ironic-inspector_temp'']\<rparr>)"
    by (simp add: busy_env_facts ready_state_facts)
       (simp add: ready_state_def example_swap_def)
  from bad [THEN conjunct2, rule_format, OF f, THEN conjunct1]
  have two: "update_filters broken_env (ready_state ()) = (Some CalledProcessError, broken_state)"
    by (simp add: broken_state_def ready_state_def line_defs)
  have next_call: "manage_firewall (conf busy_env) \<and> priv_should_enable_dhcp busy_env \<and>
        port_list busy_env = Some [example_port] \<and>
        fst (priv_ib_mac_to_rmac_mapping busy_env (to_blacklist_of busy_env [example_port])
               [example_port]) = Inr Map.empty"
    by (simp add: busy_env_facts)
  from bad [THEN conjunct2, rule_format, OF f, THEN conjunct2, rule_format, OF next_call]
  have three: "\<exists>xs. issued (snd (update_filters busy_env broken_state)) =
      issued broken_state @
      (example_base @ ''-D'' # hook_rule ''br-ctlplane'' ''ironic-inspector_temp'') # xs"
    unfolding two snd_conv .
  have "BLACKLIST_CACHE broken_state = None" by (simp add: broken_state_def ready_state_def)
  with one two three show ?thesis by (intro conjI)
qed

theorem update_filters_cache_counterexample:
  "text_output strict_env \<and>
   \<not> fst (exec strict_env ()
       (example_base @ ''-D'' # hook_rule ''br-ctlplane'' ''ironic-inspector_temp'')) \<and>
   hd (issued (snd (update_filters strict_env (ready_state ())))) =
     example_base @ ''-D'' # hook_rule ''br-ctlplane'' ''ironic-inspector_temp'' \<and>
   fst (update_filters strict_env (ready_state ())) = None \<and>
   BLACKLIST_CACHE (snd (update_filters strict_env (ready_state ()))) = Some {example_mac} \<and>
   ENABLED (snd (update_filters strict_env (ready_state ()))) \<and>
   update_filters broken_env disabled_state = (Some CalledProcessError, stale_state) \<and>
   BLACKLIST_CACHE stale_state = None \<and>
   update_filters idle_env stale_state = (None, stale_state)"
proof -
  have "update_filters broken_env disabled_state = (Some CalledProcessError, stale_state)"
    by (simp add: run_defs example_defs example_mac_def example_base_def disabled_state_def
          stale_state_def broken_state_def)
  moreover have "update_filters idle_env stale_state = (None, stale_state)"
    by (simp add: run_defs example_defs disabled_state_def stale_state_def)
  moreover have "BLACKLIST_CACHE stale_state = None"
    by (simp add: stale_state_def disabled_state_def ready_state_def)
  ultimately show ?thesis
    by (simp add: strict_run)
       (simp add: strict_env_def busy_env_def idle_env_def example_swap_def swap_sequence_def
          ready_state_def)
qed

subsection \<open>A swap on the packet filter's tables\<close>

lemma hook_rule_match: "hook_rule iface c = ''INPUT'' # hook_match iface @ [c]"
  by (simp add: hook_rule_def hook_match_def)

lemma tbl_run_append: "tbl_run t (xs @ ys) = tbl_run (tbl_run t xs) ys"
  by (induction xs arbitrary: t) simp_all

lemma steps_ok_append:
  "steps_ok P t (xs @ ys) \<longleftrightarrow> steps_ok P t xs \<and> steps_ok P (tbl_run t (map fst xs)) ys"
proof (induction xs arbitrary: t)
  case Nil
  show ?case by (cases ys) auto
next
  case (Cons c cs)
  then show ?case by auto
qed

lemma steps_ok_prefix:
  "steps_ok P t cs \<Longrightarrow> k \<le> length cs \<Longrightarrow> P (tbl_run t (take k (map fst cs)))"
proof (induction cs arbitrary: t k)
  case Nil
  then show ?case by simp
next
  case (Cons c cs)
  show ?case
  proof (cases k)
    case 0
    with Cons.prems show ?thesis by simp
  next
    case (Suc j)
    with Cons.prems Cons.IH [of "snd (tbl_cmd t (fst c))" j] show ?thesis by simp
  qed
qed

lemma hook_targets_chains [simp]:
  "hook_targets iface (t\<lparr>chains := x\<rparr>) = hook_targets iface t"
  by (simp add: hook_targets_def)

lemma fully_populated_other:
  "c \<noteq> d \<Longrightarrow> fully_populated (t\<lparr>chains := (chains t)(d := x)\<rparr>) c = fully_populated t c"
  by (simp add: fully_populated_def)

lemma filter_remove1_single: "filter P xs = [x] \<Longrightarrow> filter P (remove1 x xs) = []"
proof (induction xs)
  case Nil
  then show ?case by simp
next
  case (Cons y ys)
  show ?case
  proof (cases "P y")
    case True
    with Cons.prems have "y = x" "filter P ys = []" by simp_all
    then show ?thesis by simp
  next
    case False
    with Cons.prems have "filter P ys = [x]" by simp
    then have "x \<in> set (filter P ys)" by simp
    then have "P x" by simp
    with False have "y \<noteq> x" by auto
    with False Cons.IH [OF \<open>filter P ys = [x]\<close>] show ?thesis by simp
  qed
qed

text \<open>What a settled table holds.\<close>

lemma settled_hooks:
  assumes "settled iface new main_chain t" and "new \<noteq> main_chain"
  shows "filter (\<lambda>r. r \<noteq> [] \<and> butlast r = hook_match iface) (input t) =
           [hook_match iface @ [main_chain]]"
    and "hook_match iface @ [new] \<notin> set (input t)"
    and "list_all (\<lambda>r. \<not> refers r new) (input t)"
    and "list_all (\<lambda>r. \<not> refers r main_chain)
           (remove1 (hook_match iface @ [main_chain]) (input t))"
    and "hook_match iface @ [main_chain] \<in> set (input t)"
proof -
  let ?P = "\<lambda>r. r \<noteq> [] \<and> butlast r = hook_match iface"
  let ?hm = "hook_match iface @ [main_chain]"
  from assms(1) have h: "map last (filter ?P (input t)) = [main_chain]"
    and o: "\<forall>r \<in> set (input t). refers r main_chain \<or> refers r new \<longrightarrow> r = ?hm"
    by (simp_all add: settled_def hook_targets_def list_all_iff)
  from h obtain r where f: "filter ?P (input t) = [r]" and l: "last r = main_chain"
    by (cases "filter ?P (input t)") auto
  from f have "r \<in> set (filter ?P (input t))" by simp
  then have r: "r \<noteq> []" "butlast r = hook_match iface" by simp_all
  from r(1) have "r = butlast r @ [last r]" by simp
  with r(2) l have "r = ?hm" by simp
  with f show one: "filter ?P (input t) = [?hm]" by simp
  then have "?hm \<in> set (filter ?P (input t))" by simp
  then show "?hm \<in> set (input t)" by simp
  show "hook_match iface @ [new] \<notin> set (input t)"
  proof
    assume "hook_match iface @ [new] \<in> set (input t)"
    with o have "hook_match iface @ [new] = ?hm" by (simp add: refers_def)
    with assms(2) show False by simp
  qed
  show "list_all (\<lambda>r. \<not> refers r new) (input t)"
    unfolding list_all_iff
  proof
    fix r assume "r \<in> set (input t)"
    show "\<not> refers r new"
    proof
      assume n: "refers r new"
      with o \<open>r \<in> set (input t)\<close> have "r = ?hm" by simp
      with n assms(2) show False by (simp add: refers_def)
    qed
  qed
  have none: "filter ?P (remove1 ?hm (input t)) = []" using one by (rule filter_remove1_single)
  show "list_all (\<lambda>r. \<not> refers r main_chain) (remove1 ?hm (input t))"
    unfolding list_all_iff
  proof
    fix r assume in1: "r \<in> set (remove1 ?hm (input t))"
    then have "r \<in> set (input t)" using set_remove1_subset [of ?hm "input t"] by blast
    show "\<not> refers r main_chain"
    proof
      assume "refers r main_chain"
      with o \<open>r \<in> set (input t)\<close> have "r = ?hm" by simp
      with in1 have "?hm \<in> set (filter ?P (remove1 ?hm (input t)))"
        by (simp add: hook_match_def)
      with none show False by simp
    qed
  qed
qed

lemma settled_hooked:
  assumes "settled iface new main_chain t"
  shows "hooked_ok iface new main_chain t"
  using assms by (simp add: settled_def hooked_ok_def)

text \<open>Resetting and creating the temporary chain.\<close>

lemma pre_steps:
  assumes "settled iface new main_chain t" and "new \<noteq> main_chain"
  shows "steps_ok (hooked_ok iface new main_chain) t
           [(''-D'' # hook_rule iface new, True), ([''-F'', new], True), ([''-X'', new], True),
            ([''-N'', new], False)] \<and>
         tbl_run t [''-D'' # hook_rule iface new, [''-F'', new], [''-X'', new], [''-N'', new]] =
           t\<lparr>chains := (chains t)(new \<mapsto> [])\<rparr>"
proof -
  note s = settled_hooks [OF assms]
  have ok: "hooked_ok iface new main_chain t" using assms(1) by (rule settled_hooked)
  have ok': "hooked_ok iface new main_chain (t\<lparr>chains := (chains t)(new := x)\<rparr>)" for x
    using assms by (simp add: settled_def hooked_ok_def fully_populated_other)
  have d: "tbl_cmd t (''-D'' # hook_rule iface new) = (False, t)"
    using s(2) by (simp add: tbl_cmd_def hook_rule_match)
  show ?thesis
  proof (cases "chains t new")
    case None
    then have "tbl_cmd t [''-F'', new] = (False, t)" "tbl_cmd t [''-X'', new] = (False, t)"
      "tbl_cmd t [''-N'', new] = (True, t\<lparr>chains := (chains t)(new \<mapsto> [])\<rparr>)"
      by (simp_all add: tbl_cmd_def)
    with d ok ok' show ?thesis by simp
  next
    case (Some rs)
    let ?t1 = "t\<lparr>chains := (chains t)(new \<mapsto> [])\<rparr>"
    let ?t2 = "t\<lparr>chains := (chains t)(new := None)\<rparr>"
    from Some have a: "tbl_cmd t [''-F'', new] = (True, ?t1)" by (simp add: tbl_cmd_def)
    have b: "tbl_cmd ?t1 [''-X'', new] = (True, ?t2)"
      using s(3) by (simp add: tbl_cmd_def)
    have c: "tbl_cmd ?t2 [''-N'', new] = (True, ?t1)" by (simp add: tbl_cmd_def)
    from d a b c ok ok' show ?thesis by simp
  qed
qed

text \<open>Appending the rules of the body to the temporary chain, which is not hooked.\<close>

lemma populate_steps:
  assumes "hook_targets iface t = [main_chain]" and "fully_populated t main_chain"
    and "new \<noteq> main_chain" and "chains t new = Some old"
  shows "steps_ok (hooked_ok iface new main_chain) t
           (map (\<lambda>r. (''-A'' # new # r, False)) rules) \<and>
         tbl_run t (map (\<lambda>r. ''-A'' # new # r) rules) =
           t\<lparr>chains := (chains t)(new \<mapsto> old @ rules)\<rparr>"
  using assms
proof (induction rules arbitrary: t old)
  case Nil
  then show ?case by (simp add: hooked_ok_def fun_upd_idem)
next
  case (Cons r rules)
  let ?t' = "t\<lparr>chains := (chains t)(new \<mapsto> old @ [r])\<rparr>"
  have step: "tbl_cmd t (''-A'' # new # r) = (True, ?t')"
    using Cons.prems(4) by (simp add: tbl_cmd_def)
  have ok: "hooked_ok iface new main_chain t"
    using Cons.prems(1,2) by (simp add: hooked_ok_def)
  have "steps_ok (hooked_ok iface new main_chain) ?t'
           (map (\<lambda>r. (''-A'' # new # r, False)) rules) \<and>
         tbl_run ?t' (map (\<lambda>r. ''-A'' # new # r) rules) =
           ?t'\<lparr>chains := (chains ?t')(new \<mapsto> (old @ [r]) @ rules)\<rparr>"
    using Cons.prems by (intro Cons.IH) (simp_all add: fully_populated_def)
  then have "steps_ok (hooked_ok iface new main_chain) ?t'
           (map (\<lambda>r. (''-A'' # new # r, False)) rules)"
    and "tbl_run ?t' (map (\<lambda>r. ''-A'' # new # r) rules) =
           t\<lparr>chains := (chains t)(new \<mapsto> old @ r # rules)\<rparr>"
    by simp_all
  with step ok show ?case by (simp add: fun_upd_def)
qed

text \<open>Hooking the temporary chain, unhooking and deleting the primary one, renaming.\<close>

lemma post_steps:
  assumes "settled iface new main_chain t0" and "new \<noteq> main_chain"
    and "t = t0\<lparr>chains := (chains t0)(new \<mapsto> rules)\<rparr>" and "rules \<noteq> []"
    and "last rules = [''-j'', ''ACCEPT''] \<or> last rules = [''-j'', ''REJECT'']"
  shows "steps_ok (hooked_ok iface new main_chain) t
           [(''-I'' # hook_rule iface new, False), (''-D'' # hook_rule iface main_chain, True),
            ([''-F'', main_chain], True), ([''-X'', main_chain], True),
            ([''-E'', new, main_chain], False)] \<and>
         tbl_run t [''-I'' # hook_rule iface new, ''-D'' # hook_rule iface main_chain,
                    [''-F'', main_chain], [''-X'', main_chain], [''-E'', new, main_chain]] =
           t0\<lparr>input := (hook_match iface @ [main_chain]) #
                        remove1 (hook_match iface @ [main_chain]) (input t0),
              chains := (chains t0)(new := None, main_chain \<mapsto> rules)\<rparr>"
proof -
  let ?hn = "hook_match iface @ [new]" and ?hm = "hook_match iface @ [main_chain]"
  let ?P = "\<lambda>r. r \<noteq> [] \<and> butlast r = hook_match iface"
  let ?rest = "remove1 ?hm (input t0)"
  let ?t1 = "t\<lparr>input := ?hn # input t0\<rparr>"
  let ?t2 = "t\<lparr>input := ?hn # ?rest\<rparr>"
  let ?t3 = "?t2\<lparr>chains := (chains t)(main_chain \<mapsto> [])\<rparr>"
  let ?t4 = "?t2\<lparr>chains := (chains t)(main_chain := None)\<rparr>"
  let ?t5 = "t0\<lparr>input := ?hm # ?rest, chains := (chains t0)(new := None, main_chain \<mapsto> rules)\<rparr>"
  note s = settled_hooks [OF assms(1,2)]
  from assms(1) have h0: "hook_targets iface t0 = [main_chain]"
    and f0: "fully_populated t0 main_chain" by (simp_all add: settled_def)
  have it: "input t = input t0" and cn: "chains t new = Some rules"
    and cm: "chains t main_chain = chains t0 main_chain"
    using assms(2,3) by simp_all
  from f0 obtain rs where m: "chains t0 main_chain = Some rs"
    by (auto simp: fully_populated_def split: option.splits)
  have fn: "fully_populated t new" using cn assms(4,5) by (simp add: fully_populated_def)
  have fm: "fully_populated t main_chain"
    using f0 assms(2,3) by (simp add: fully_populated_def)
  have nm: "?hn \<noteq> ?hm" using assms(2) by simp
  have none: "filter ?P ?rest = []" using s(1) by (rule filter_remove1_single)
  have c1: "tbl_cmd t (''-I'' # hook_rule iface new) = (True, ?t1)"
    using cn it by (simp add: tbl_cmd_def hook_rule_match)
  have c2: "tbl_cmd ?t1 (''-D'' # hook_rule iface main_chain) = (True, ?t2)"
    using s(5) nm by (simp add: tbl_cmd_def hook_rule_match)
  have c3: "tbl_cmd ?t2 [''-F'', main_chain] = (True, ?t3)"
    using m cm by (simp add: tbl_cmd_def)
  have c4: "tbl_cmd ?t3 [''-X'', main_chain] = (True, ?t4)"
    using s(4) assms(2) by (simp add: tbl_cmd_def refers_def)
  have keep: "map (\<lambda>r. if refers r new then butlast r @ [main_chain] else r) ?rest = ?rest"
  proof (rule map_idI)
    fix r assume "r \<in> set ?rest"
    then have "r \<in> set (input t0)" using set_remove1_subset [of ?hm "input t0"] by blast
    with s(3) have "\<not> refers r new" by (simp add: list_all_iff)
    then show "(if refers r new then butlast r @ [main_chain] else r) = r" by simp
  qed
  have c5: "tbl_cmd ?t4 [''-E'', new, main_chain] = (True, ?t5)"
    using cn assms(2,3) keep by (simp add: tbl_cmd_def refers_def fun_upd_twist)
  have ht1: "hook_targets iface ?t1 = [new, main_chain]"
    using h0 by (simp add: hook_targets_def hook_match_def)
  have ht2: "hook_targets iface (t'\<lparr>input := ?hn # ?rest\<rparr>) = [new]" for t' :: table
    using none by (simp add: hook_targets_def hook_match_def)
  have ht5: "hook_targets iface ?t5 = [main_chain]"
    using none by (simp add: hook_targets_def hook_match_def)
  have p0: "hooked_ok iface new main_chain t"
    using h0 fm it by (simp add: hooked_ok_def hook_targets_def)
  have p1: "hooked_ok iface new main_chain ?t1"
    using ht1 fn fm by (simp add: hooked_ok_def fully_populated_def)
  have p2: "hooked_ok iface new main_chain ?t2"
    using ht2 [of t] fn by (simp add: hooked_ok_def fully_populated_def)
  have p3: "hooked_ok iface new main_chain ?t3"
    using ht2 [of t] fn assms(2) by (simp add: hooked_ok_def fully_populated_def)
  have p4: "hooked_ok iface new main_chain ?t4"
    using ht2 [of t] fn assms(2) by (simp add: hooked_ok_def fully_populated_def)
  have p5: "hooked_ok iface new main_chain ?t5"
    using ht5 assms(4,5) by (simp add: hooked_ok_def fully_populated_def)
  from c1 c2 c3 c4 c5 p0 p1 p2 p3 p4 p5 show ?thesis by simp
qed

lemma swap_script_lines:
  "map fst (swap_script iface new main_chain rules) =
     swap_sequence iface new main_chain (map (\<lambda>r. ''-A'' # new # r) rules)"
  by (simp add: swap_script_def swap_sequence_def comp_def)

lemma swap_script_flags:
  "\<forall>c \<in> set (swap_script iface new main_chain rules). snd c \<longrightarrow> best_effort (fst c)"
  by (auto simp: swap_script_def best_effort_def)

lemma swap_steps:
  assumes "settled iface new main_chain t" and "new \<noteq> main_chain" and "rules \<noteq> []"
    and "last rules = [''-j'', ''ACCEPT''] \<or> last rules = [''-j'', ''REJECT'']"
  shows "steps_ok (hooked_ok iface new main_chain) t (swap_script iface new main_chain rules) \<and>
         tbl_run t (map fst (swap_script iface new main_chain rules)) =
           t\<lparr>input := (hook_match iface @ [main_chain]) #
                       remove1 (hook_match iface @ [main_chain]) (input t),
             chains := (chains t)(new := None, main_chain \<mapsto> rules)\<rparr>"
proof -
  from assms have h: "hook_targets iface t = [main_chain]"
    and f: "fully_populated t main_chain" by (simp_all add: settled_def)
  define pre where "pre = [(''-D'' # hook_rule iface new, True), ([''-F'', new], True),
      ([''-X'', new], True), ([''-N'', new], False)]"
  define body where "body = map (\<lambda>r. (''-A'' # new # r, False)) rules"
  define post where "post = [(''-I'' # hook_rule iface new, False),
      (''-D'' # hook_rule iface main_chain, True),
      ([''-F'', main_chain], True), ([''-X'', main_chain], True),
      ([''-E'', new, main_chain], False)]"
  let ?P = "hooked_ok iface new main_chain"
  let ?hm = "hook_match iface @ [main_chain]"
  let ?ta = "t\<lparr>chains := (chains t)(new \<mapsto> [])\<rparr>"
  let ?tb = "t\<lparr>chains := (chains t)(new \<mapsto> rules)\<rparr>"
  let ?tc = "t\<lparr>input := ?hm # remove1 ?hm (input t),
               chains := (chains t)(new := None, main_chain \<mapsto> rules)\<rparr>"
  have script: "swap_script iface new main_chain rules = pre @ body @ post"
    by (simp add: swap_script_def pre_def body_def post_def)
  have pre: "steps_ok ?P t pre" and pre_run: "tbl_run t (map fst pre) = ?ta"
    using pre_steps [OF assms(1,2)] by (simp_all only: pre_def list.map fst_conv)
  have fa: "fully_populated ?ta main_chain"
    using f assms(2) by (simp add: fully_populated_other)
  have "steps_ok ?P ?ta (map (\<lambda>r. (''-A'' # new # r, False)) rules) \<and>
         tbl_run ?ta (map (\<lambda>r. ''-A'' # new # r) rules) =
           ?ta\<lparr>chains := (chains ?ta)(new \<mapsto> [] @ rules)\<rparr>"
    using h fa assms(2) by (intro populate_steps) simp_all
  then have body: "steps_ok ?P ?ta body" and body_run: "tbl_run ?ta (map fst body) = ?tb"
    by (simp_all add: body_def comp_def del: steps_ok.simps tbl_run.simps)
  have "steps_ok ?P ?tb
           [(''-I'' # hook_rule iface new, False), (''-D'' # hook_rule iface main_chain, True),
            ([''-F'', main_chain], True), ([''-X'', main_chain], True),
            ([''-E'', new, main_chain], False)] \<and>
         tbl_run ?tb [''-I'' # hook_rule iface new, ''-D'' # hook_rule iface main_chain,
                    [''-F'', main_chain], [''-X'', main_chain], [''-E'', new, main_chain]] = ?tc"
    using assms by (intro post_steps) simp_all
  then have post: "steps_ok ?P ?tb post" and post_run: "tbl_run ?tb (map fst post) = ?tc"
    by (simp_all add: post_def del: steps_ok.simps tbl_run.simps)
  have "steps_ok ?P t (pre @ body @ post)"
    using pre body post by (simp only: steps_ok_append pre_run body_run simp_thms)
  moreover have "tbl_run t (map fst (pre @ body @ post)) = ?tc"
    by (simp only: map_append tbl_run_append pre_run body_run post_run)
  ultimately show ?thesis by (simp only: script simp_thms)
qed

lemma settled_after:
  assumes "settled iface new main_chain t" and "new \<noteq> main_chain" and "rules \<noteq> []"
    and "last rules = [''-j'', ''ACCEPT''] \<or> last rules = [''-j'', ''REJECT'']"
  shows "settled iface new main_chain
           (t\<lparr>input := (hook_match iface @ [main_chain]) #
                        remove1 (hook_match iface @ [main_chain]) (input t),
              chains := (chains t)(new := None, main_chain \<mapsto> rules)\<rparr>)"
proof -
  let ?hm = "hook_match iface @ [main_chain]"
  let ?P = "\<lambda>r. r \<noteq> [] \<and> butlast r = hook_match iface"
  note s = settled_hooks [OF assms(1,2)]
  have none: "filter ?P (remove1 ?hm (input t)) = []" using s(1) by (rule filter_remove1_single)
  have "list_all (\<lambda>r. refers r main_chain \<or> refers r new \<longrightarrow> r = ?hm) (remove1 ?hm (input t))"
    unfolding list_all_iff
  proof (intro ballI impI)
    fix r assume r: "r \<in> set (remove1 ?hm (input t))" and "refers r main_chain \<or> refers r new"
    from r have "r \<in> set (input t)" using set_remove1_subset [of ?hm "input t"] by blast
    with assms(1) \<open>refers r main_chain \<or> refers r new\<close> show "r = ?hm"
      by (auto simp: settled_def list_all_iff)
  qed
  with none assms(3,4) show ?thesis
    by (simp add: settled_def hook_targets_def fully_populated_def hook_match_def)
qed

text \<open>On an environment whose commands act on the tables, a script whose steps are fine runs through.\<close>

lemma run_lines_tables:
  assumes "\<forall>t args. exec env t (base @ args) = tbl_cmd t args"
  shows "run_lines env base t lines = tbl_run t lines"
  using assms by (induction lines arbitrary: t) simp_all

lemma first_failure_tables:
  assumes "\<forall>t args. exec env t (base @ args) = tbl_cmd t args"
    and "steps_ok P t script" and "\<forall>c \<in> set script. snd c \<longrightarrow> best_effort (fst c)"
  shows "first_failure env base t (map fst script) = None"
  using assms(2,3)
proof (induction script arbitrary: t)
  case Nil
  then show ?case by simp
next
  case (Cons c cs)
  from Cons.prems have "fst (tbl_cmd t (fst c)) \<or> best_effort (fst c)"
    and "steps_ok P (snd (tbl_cmd t (fst c))) cs" by auto
  with Cons.IH [of "snd (tbl_cmd t (fst c))"] Cons.prems(2) assms(1) show ?case by simp
qed

text \<open>Any swap, run from tables as a completed swap leaves them.\<close>

lemma run_swap_settled:
  assumes "\<forall>t args. exec env t (base @ args) = tbl_cmd t args"
    and "settled iface new main_chain (world s)"
    and "new \<noteq> main_chain" and "rules \<noteq> []"
    and "last rules = [''-j'', ''ACCEPT''] \<or> last rules = [''-j'', ''REJECT'']"
    and "lines = swap_sequence iface new main_chain (map (\<lambda>r. ''-A'' # new # r) rules)"
  shows "run_outcome env base lines s =
           (None, s\<lparr>world := tbl_run (world s) lines,
                    issued := issued s @ map ((@) base) lines\<rparr>)"
    and "settled iface new main_chain (tbl_run (world s) lines)"
    and "\<forall>k \<le> length lines. hooked_ok iface new main_chain (tbl_run (world s) (take k lines))"
proof -
  let ?script = "swap_script iface new main_chain rules"
  from swap_steps [OF assms(2,3,4,5)]
  have ok: "steps_ok (hooked_ok iface new main_chain) (world s) ?script"
    and fin: "tbl_run (world s) (map fst ?script) =
           (world s)\<lparr>input := (hook_match iface @ [main_chain]) #
                        remove1 (hook_match iface @ [main_chain]) (input (world s)),
              chains := (chains (world s))(new := None, main_chain \<mapsto> rules)\<rparr>"
    by simp_all
  have l: "map fst ?script = lines" by (simp add: swap_script_lines assms(6))
  from first_failure_tables [OF assms(1) ok swap_script_flags]
  have "first_failure env base (world s) lines = None" by (simp only: l)
  then show "run_outcome env base lines s =
           (None, s\<lparr>world := tbl_run (world s) lines,
                    issued := issued s @ map ((@) base) lines\<rparr>)"
    by (simp add: run_outcome_def run_lines_tables [OF assms(1)])
  from settled_after [OF assms(2,3,4,5)] fin
  show "settled iface new main_chain (tbl_run (world s) lines)" by (simp only: l)
  from steps_ok_prefix [OF ok]
  show "\<forall>k \<le> length lines. hooked_ok iface new main_chain (tbl_run (world s) (take k lines))"
    unfolding l [symmetric] by simp
qed

lemma body_lines:
  "map (\<lambda>r. ''-A'' # new # r) (map drop_match ms @ [[''-j'', ''ACCEPT'']]) =
     map (drop_rule new) ms @ [accept_rule new]"
  by (simp add: drop_match_def drop_rule_def accept_rule_def)

text \<open>
  Claim C2, as amended. A chain swap issues its commands in the stated order: reset and
  create the temporary chain, populate it, hook it into the input chain, unhook the
  primary chain, flush and delete the primary chain, rename the temporary chain. Let
  the swap start on tables where the interface has exactly one DHCP hook, to the fully
  populated primary chain, and no other rule of the input chain jumps to the primary or
  the temporary chain; let the packet filter behave as its manual says and the output
  of a failed command be text. Then the call returns normally, leaves the tables in
  such a state again, and at every instant of the swap the interface has a DHCP hook
  and every hooked chain is fully populated: the hooks point to the primary chain, to
  the temporary and the primary chain together, or to the temporary chain alone.
\<close>

theorem swap_keeps_dhcp_hooked:
  assumes "manage_firewall (conf env)" and "text_output env"
    and "BASE_COMMAND s = Some base" and "INTERFACE s = Some iface"
    and "NEW_CHAIN s = Some new" and "CHAIN s = Some main_chain" and "new \<noteq> main_chain"
    and "\<forall>t args. exec env t (base @ args) = tbl_cmd t args"
    and "settled iface new main_chain (world s)"
    and "if priv_should_enable_dhcp env
         then port_list env = Some ports \<and>
              fst (priv_ib_mac_to_rmac_mapping env (to_blacklist_of env ports) ports) = Inr mp \<and>
              \<not> (BLACKLIST_CACHE s = Some (to_blacklist_of env ports) \<and> mp = Map.empty) \<and>
              body = map (\<lambda>mac. drop_rule new (remap mp mac))
                       (set_iter env (to_blacklist_of env ports)) @ [accept_rule new]
         else resolve_client env \<noteq> None \<and> ENABLED s \<and> body = [reject_rule new]"
  shows "\<exists>s'. update_filters env s = (None, s') \<and>
           issued s' = issued s @ map ((@) base) (swap_sequence iface new main_chain body) \<and>
           world s' = tbl_run (world s) (swap_sequence iface new main_chain body) \<and>
           settled iface new main_chain (world s') \<and>
           (\<forall>k \<le> length (swap_sequence iface new main_chain body).
              hook_targets iface
                (tbl_run (world s) (take k (swap_sequence iface new main_chain body)))
                \<in> {[main_chain], [new, main_chain], [new]} \<and>
              list_all
                (fully_populated
                   (tbl_run (world s) (take k (swap_sequence iface new main_chain body))))
                (hook_targets iface
                   (tbl_run (world s) (take k (swap_sequence iface new main_chain body)))))"
proof (cases "priv_should_enable_dhcp env")
  case en: True
  let ?bl = "to_blacklist_of env ports"
  from en assms(10) have p: "port_list env = Some ports"
    and m: "fst (priv_ib_mac_to_rmac_mapping env ?bl ports) = Inr mp"
    and ns: "\<not> (BLACKLIST_CACHE s = Some ?bl \<and> mp = Map.empty)"
    and body: "body = map (\<lambda>mac. drop_rule new (remap mp mac)) (set_iter env ?bl) @
                 [accept_rule new]"
    by simp_all
  obtain lg where mp: "priv_ib_mac_to_rmac_mapping env ?bl ports = (Inr mp, lg)"
    using m by (cases "priv_ib_mac_to_rmac_mapping env ?bl ports") auto
  let ?s1 = "s\<lparr>logged := logged s @ lg, BLACKLIST_CACHE := None\<rparr>"
  let ?rules = "map drop_match (map (remap mp) (set_iter env ?bl)) @ [[''-j'', ''ACCEPT'']]"
  let ?lines = "swap_sequence iface new main_chain body"
  have lines: "?lines = swap_sequence iface new main_chain (map (\<lambda>r. ''-A'' # new # r) ?rules)"
    unfolding body body_lines by (simp add: comp_def)
  have w: "settled iface new main_chain (world ?s1)" using assms(9) by simp
  have r: "?rules \<noteq> []" "last ?rules = [''-j'', ''ACCEPT''] \<or> last ?rules = [''-j'', ''REJECT'']"
    by simp_all
  note run = run_swap_settled [OF assms(8) w assms(7) r lines]
  from update_filters_apply [OF assms(1-6) en p mp ns, folded body] run(1)
  have "update_filters env s =
      (None, ?s1\<lparr>world := tbl_run (world s) ?lines,
                 issued := issued s @ map ((@) base) ?lines,
                 ENABLED := True, BLACKLIST_CACHE := Some ?bl\<rparr>)"
    by simp
  with run(2,3) show ?thesis by (simp add: hooked_ok_def)
next
  case False
  with assms(10) have c: "resolve_client env \<noteq> None" and en: "ENABLED s"
    and body: "body = [reject_rule new]" by simp_all
  let ?s1 = "s\<lparr>BLACKLIST_CACHE := None\<rparr>"
  let ?rules = "[[''-j'', ''REJECT'']]"
  let ?lines = "swap_sequence iface new main_chain body"
  have lines: "?lines = swap_sequence iface new main_chain (map (\<lambda>r. ''-A'' # new # r) ?rules)"
    unfolding body by (simp add: reject_rule_def)
  have w: "settled iface new main_chain (world ?s1)" using assms(9) by simp
  have r: "?rules \<noteq> []" "last ?rules = [''-j'', ''ACCEPT''] \<or> last ?rules = [''-j'', ''REJECT'']"
    by simp_all
  note run = run_swap_settled [OF assms(8) w assms(7) r lines]
  from update_filters_disable [OF assms(1-6) False c en, folded body] run(1)
  have "update_filters env s =
      (None, ?s1\<lparr>world := tbl_run (world s) ?lines,
                 issued := issued s @ map ((@) base) ?lines, ENABLED := False\<rparr>)"
    by simp
  with run(2,3) show ?thesis by (simp add: hooked_ok_def)
qed

lemma table_env_busy_facts:
  "manage_firewall (conf (table_env busy_env))" "text_output (table_env busy_env)"
  "priv_should_enable_dhcp (table_env busy_env)"
  "port_list (table_env busy_env) = Some [example_port]"
  "to_blacklist_of (table_env busy_env) [example_port] = {example_mac}"
  "priv_ib_mac_to_rmac_mapping (table_env busy_env) {example_mac} [example_port] =
     (Inr Map.empty, [])"
  "set_iter (table_env busy_env) {example_mac} = [example_mac]"
  "\<forall>t args. exec (table_env busy_env) t (example_base @ args) = tbl_cmd t args"
  by (simp_all add: table_env_def run_defs example_defs example_base_def)

lemma shared_table_settled:
  "settled ''br-ctlplane'' ''ironic-inspector_temp'' ''ironic-inspector'' shared_table"
  by (simp add: settled_def shared_table_def settled_table_def fully_populated_def
        hook_targets_def hook_match_def refers_def)

theorem swap_keeps_dhcp_hooked_witness:
  "settled ''br-ctlplane'' ''ironic-inspector_temp'' ''ironic-inspector''
     (world (ready_state shared_table)) \<and>
   input shared_table =
     [[''-p'', ''tcp'', ''--dport'', ''22'', ''-j'', ''ACCEPT''],
      hook_match ''br-ctlplane'' @ [''ironic-inspector'']] \<and>
   fst (update_filters (table_env busy_env) (ready_state shared_table)) = None \<and>
   settled ''br-ctlplane'' ''ironic-inspector_temp'' ''ironic-inspector''
     (world (snd (update_filters (table_env busy_env) (ready_state shared_table)))) \<and>
   hook_targets ''br-ctlplane''
     (tbl_run shared_table
        (take 7 (swap_sequence ''br-ctlplane'' ''ironic-inspector_temp'' ''ironic-inspector''
           [drop_rule ''ironic-inspector_temp'' example_mac,
            accept_rule ''ironic-inspector_temp'']))) =
     [''ironic-inspector_temp'', ''ironic-inspector'']"
proof -
  let ?body = "[drop_rule ''ironic-inspector_temp'' example_mac,
                accept_rule ''ironic-inspector_temp'']"
  let ?seq = "swap_sequence ''br-ctlplane'' ''ironic-inspector_temp'' ''ironic-inspector'' ?body"
  have ne: "''ironic-inspector_temp'' \<noteq> ''ironic-inspector''" by simp
  have st: "settled ''br-ctlplane'' ''ironic-inspector_temp'' ''ironic-inspector''
      (world (ready_state shared_table))"
    using shared_table_settled by (simp add: ready_state_facts)
  have c: "if priv_should_enable_dhcp (table_env busy_env)
         then port_list (table_env busy_env) = Some [example_port] \<and>
              fst (priv_ib_mac_to_rmac_mapping (table_env busy_env)
                     (to_blacklist_of (table_env busy_env) [example_port]) [example_port]) =
                Inr Map.empty \<and>
              \<not> (BLACKLIST_CACHE (ready_state shared_table) =
                    Some (to_blacklist_of (table_env busy_env) [example_port]) \<and>
                  Map.empty = (Map.empty :: mac \<rightharpoonup> mac)) \<and>
              ?body = map (\<lambda>mac. drop_rule ''ironic-inspector_temp'' (remap Map.empty mac))
                       (set_iter (table_env busy_env)
                          (to_blacklist_of (table_env busy_env) [example_port])) @
                      [accept_rule ''ironic-inspector_temp'']
         else resolve_client (table_env busy_env) \<noteq> None \<and>
              ENABLED (ready_state shared_table) \<and>
              ?body = [reject_rule ''ironic-inspector_temp'']"
    by (simp add: table_env_busy_facts ready_state_facts remap_def)
  from swap_keeps_dhcp_hooked [OF table_env_busy_facts(1,2) ready_state_facts(1-4) ne
      table_env_busy_facts(8) st c]
  obtain s' where u: "update_filters (table_env busy_env) (ready_state shared_table) = (None, s')"
    and f: "settled ''br-ctlplane'' ''ironic-inspector_temp'' ''ironic-inspector'' (world s')"
    by blast
  have h: "hook_targets ''br-ctlplane'' (tbl_run shared_table (take 7 ?seq)) =
     [''ironic-inspector_temp'', ''ironic-inspector'']"
    by (simp add: swap_sequence_def shared_table_def settled_table_def tbl_cmd_def hook_rule_def
          hook_match_def hook_targets_def drop_rule_def accept_rule_def refers_def)
  have i: "input shared_table =
     [[''-p'', ''tcp'', ''--dport'', ''22'', ''-j'', ''ACCEPT''],
      hook_match ''br-ctlplane'' @ [''ironic-inspector'']]"
    by (simp add: shared_table_def settled_table_def)
  from u f h st i show ?thesis by simp
qed

lemma init_on_tables:
  "init (table_env busy_env) (initial_state empty_table) =
     (None, (ready_state fresh_table)\<lparr>issued :=
        map ((@) [''sudo'', ''ironic-inspector-rootwrap'', ''/etc/rootwrap.conf'', ''iptables''])
          [[''-w'', ''-h'']] @
        map ((@) example_base)
          [''-D'' # hook_rule ''br-ctlplane'' ''ironic-inspector'',
           [''-F'', ''ironic-inspector''], [''-X'', ''ironic-inspector''],
           [''-N'', ''ironic-inspector'']]\<rparr>)"
  by (simp add: init_def table_env_def busy_env_def idle_env_def example_conf_def
        initial_state_def ready_state_def example_base_def priv_clean_up_def priv_iptables_def
        hook_args_def hook_rule_def Let_def tbl_cmd_def empty_table_def fresh_table_def)

lemma first_swap_on_tables:
  "fst (update_filters (table_env busy_env) (ready_state fresh_table)) = None \<and>
   issued (snd (update_filters (table_env busy_env) (ready_state fresh_table))) =
     example_swap [drop_rule ''ironic-inspector_temp'' example_mac,
                   accept_rule ''ironic-inspector_temp'']"
  by (simp add: table_env_def run_defs example_defs example_base_def tbl_cmd_def
        fresh_table_def refers_def)

theorem swap_keeps_dhcp_hooked_counterexample:
  "text_output (table_env busy_env) \<and>
   fst (init (table_env busy_env) (initial_state empty_table)) = None \<and>
   world (snd (init (table_env busy_env) (initial_state empty_table))) = fresh_table \<and>
   hook_targets ''br-ctlplane'' fresh_table = [] \<and>
   fst (update_filters (table_env busy_env) (ready_state fresh_table)) = None \<and>
   issued (snd (update_filters (table_env busy_env) (ready_state fresh_table))) =
     example_swap [drop_rule ''ironic-inspector_temp'' example_mac,
                   accept_rule ''ironic-inspector_temp''] \<and>
   hook_targets ''br-ctlplane''
     (tbl_run fresh_table
        (take 6 (swap_sequence ''br-ctlplane'' ''ironic-inspector_temp'' ''ironic-inspector''
           [drop_rule ''ironic-inspector_temp'' example_mac,
            accept_rule ''ironic-inspector_temp'']))) = [] \<and>
   hook_targets ''br-ctlplane''
     (tbl_run settled_table
        (take 7 (swap_sequence ''br-ctlplane'' ''ironic-inspector_temp'' ''ironic-inspector''
           [drop_rule ''ironic-inspector_temp'' example_mac,
            accept_rule ''ironic-inspector_temp'']))) =
     [''ironic-inspector_temp'', ''ironic-inspector'']"
proof -
  have "hook_targets ''br-ctlplane''
     (tbl_run fresh_table
        (take 6 (swap_sequence ''br-ctlplane'' ''ironic-inspector_temp'' ''ironic-inspector''
           [drop_rule ''ironic-inspector_temp'' example_mac,
            accept_rule ''ironic-inspector_temp'']))) = []"
    by (simp add: swap_sequence_def fresh_table_def tbl_cmd_def hook_rule_def hook_match_def
          hook_targets_def drop_rule_def accept_rule_def refers_def)
  moreover have "hook_targets ''br-ctlplane'' fresh_table = []"
    by (simp add: hook_targets_def fresh_table_def)
  moreover have "hook_targets ''br-ctlplane''
     (tbl_run settled_table
        (take 7 (swap_sequence ''br-ctlplane'' ''ironic-inspector_temp'' ''ironic-inspector''
           [drop_rule ''ironic-inspector_temp'' example_mac,
            accept_rule ''ironic-inspector_temp'']))) =
     [''ironic-inspector_temp'', ''ironic-inspector'']"
    by (simp add: swap_sequence_def settled_table_def tbl_cmd_def hook_rule_def
          hook_match_def hook_targets_def drop_rule_def accept_rule_def refers_def)
  ultimately show ?thesis
    by (simp add: init_on_tables first_swap_on_tables table_env_busy_facts(2))
       (simp add: ready_state_def)
qed

subsection \<open>Which match the mapping keeps\<close>

lemma last_or_append: "last_or (xs @ ys) x = last_or ys (last_or xs x)"
  by (simp add: last_or_def)

lemma last_or_Nil [simp]: "last_or [] x = x"
  by (simp add: last_or_def)

lemma port_step_hits:
  assumes "port_step env d bl p m = Inr m'" and "a \<in> bl"
  shows "m' a = last_or (if address p = a then port_hits env d p else []) (m a)"
  using assms
  by (auto simp: port_step_def port_hits_def last_or_def Let_def
           split: option.splits sum.splits if_splits)

lemma ports_loop_hits:
  assumes "ports_loop env d bl ps m = Inr m'" and "a \<in> bl"
  shows "m' a = last_or (concat (map (port_hits env d) (filter (\<lambda>p. address p = a) ps))) (m a)"
  using assms(1)
proof (induction ps arbitrary: m)
  case Nil
  then show ?case by simp
next
  case (Cons p ps)
  from Cons.prems obtain m1 where s1: "port_step env d bl p m = Inr m1"
    and rest: "ports_loop env d bl ps m1 = Inr m'"
    by (auto split: sum.splits)
  from Cons.IH [OF rest] port_step_hits [OF s1 assms(2)] show ?case
    by (simp add: last_or_append)
qed

lemma ifaces_loop_hits:
  assumes "fst (ifaces_loop env bl ps is m) = Inr m'" and "a \<in> bl"
  shows "m' a =
     last_or (concat (map (\<lambda>i. case read_file env (neighs_file i) of
                                 None \<Rightarrow> []
                               | Some d \<Rightarrow> concat (map (port_hits env d)
                                                      (filter (\<lambda>p. address p = a) ps))) is))
       (m a)"
  using assms(1)
proof (induction "is" arbitrary: m)
  case Nil
  then show ?case by simp
next
  case (Cons i "is")
  show ?case
  proof (cases "read_file env (neighs_file i)")
    case None
    with Cons.prems have "fst (ifaces_loop env bl ps is m) = Inr m'" by (simp add: Let_def)
    from Cons.IH [OF this] None show ?thesis by simp
  next
    case (Some d)
    with Cons.prems obtain m1 where s1: "ports_loop env d bl ps m = Inr m1"
      and rest: "fst (ifaces_loop env bl ps is m1) = Inr m'"
      by (auto split: sum.splits)
    from Cons.IH [OF rest] ports_loop_hits [OF s1 assms(2)] Some show ?thesis
      by (simp add: last_or_append)
  qed
qed

text \<open>For a GUID without metacharacters the code's search gives the first matching line.\<close>

lemma port_hits_entry:
  assumes "\<forall>cid. extra p ''client-id'' = Some cid \<longrightarrow>
             \<not> (\<exists>c \<in> set (drop (length cid - 23) cid). regex_special c)"
  shows "port_hits env d p = port_entry d p"
proof (cases "extra p ''client-id''")
  case None
  then show ?thesis by (simp add: port_hits_def port_entry_def)
next
  case (Some cid)
  with assms have "\<not> (\<exists>c \<in> set (drop (length cid - 23) cid). regex_special c)" by simp
  then have "emac_search env (drop (length cid - 23) cid) d =
      Inr (emac_search_literal (drop (length cid - 23) cid) d)"
    by (simp add: emac_search_def)
  with Some show ?thesis
    by (cases "all_matches (drop (length cid - 23) cid) d")
       (simp_all add: port_hits_def port_entry_def search_first)
qed

lemma mapping_entries:
  assumes "fst (priv_ib_mac_to_rmac_mapping env bl ports) = Inr mp" and "a \<in> bl"
    and "\<forall>p \<in> set ports. address p = a \<longrightarrow>
           (\<forall>cid. extra p ''client-id'' = Some cid \<longrightarrow>
              \<not> (\<exists>c \<in> set (drop (length cid - 23) cid). regex_special c))"
  shows "mp a = last_or (entries env ports a) None"
proof -
  have eq: "concat (map (port_hits env d) (filter (\<lambda>p. address p = a) ports)) =
            concat (map (port_entry d) (filter (\<lambda>p. address p = a) ports))" for d
    using assms(3) by (intro arg_cong [where f = concat] map_cong refl port_hits_entry) auto
  have "(\<lambda>i. case read_file env (neighs_file i) of
                    None \<Rightarrow> []
                  | Some d \<Rightarrow> concat (map (port_hits env d) (filter (\<lambda>p. address p = a) ports))) =
             (\<lambda>i. case read_file env (neighs_file i) of
                    None \<Rightarrow> []
                  | Some d \<Rightarrow> concat (map (port_entry d) (filter (\<lambda>p. address p = a) ports)))"
    by (intro ext) (simp add: eq split: option.splits)
  with ifaces_loop_hits [OF assms(1) [unfolded priv_ib_mac_to_rmac_mapping_def] assms(2)]
  show ?thesis by (simp add: entries_def)
qed

text \<open>The entries are lines of the tables, and a line of a table gives an entry.\<close>

lemma entries_sound:
  assumes "x \<in> set (entries env ports a)"
  shows "table_entry env ports a x"
proof -
  from assms obtain i where i: "i \<in> set (ethoib_interfaces (conf env))"
    and xi: "x \<in> set (case read_file env (neighs_file i) of
                         None \<Rightarrow> []
                       | Some d \<Rightarrow> concat (map (port_entry d) (filter (\<lambda>p. address p = a) ports)))"
    unfolding entries_def by auto
  from xi obtain d where d: "read_file env (neighs_file i) = Some d"
    and xd: "x \<in> set (concat (map (port_entry d) (filter (\<lambda>p. address p = a) ports)))"
    by (cases "read_file env (neighs_file i)") auto
  from xd obtain p where p: "p \<in> set ports" "address p = a" and x: "x \<in> set (port_entry d p)"
    by auto
  from x obtain cid where c: "extra p ''client-id'' = Some cid"
    by (cases "extra p ''client-id''") (auto simp: port_entry_def)
  with x have c2: "cid \<noteq> []"
    and t: "x \<in> set (take 1 (all_matches (drop (length cid - 23) cid) d))"
    by (auto simp: port_entry_def split: if_splits)
  note c = c c2
  from t have "x \<in> set (all_matches (drop (length cid - 23) cid) d)" by (rule in_set_takeD)
  then have "neigh_line_for (drop (length cid - 23) cid) x d" by (simp add: neigh_line_for_iff)
  with i d p c show ?thesis unfolding table_entry_def by blast
qed

lemma entries_complete:
  assumes "table_entry env ports a e"
  shows "entries env ports a \<noteq> []"
proof -
  from assms obtain i d p cid where i: "i \<in> set (ethoib_interfaces (conf env))"
    and d: "read_file env (neighs_file i) = Some d"
    and p: "p \<in> set ports" "address p = a"
    and c: "extra p ''client-id'' = Some cid" "cid \<noteq> []"
    and n: "neigh_line_for (drop (length cid - 23) cid) e d"
    unfolding table_entry_def by blast
  from n have "all_matches (drop (length cid - 23) cid) d \<noteq> []"
    by (auto simp: neigh_line_for_iff)
  then have "port_entry d p \<noteq> []" using c by (simp add: port_entry_def)
  with p have "concat (map (port_entry d) (filter (\<lambda>p. address p = a) ports)) \<noteq> []"
    by auto
  with i d show ?thesis by (auto simp: entries_def intro!: bexI [of _ i])
qed

text \<open>
  Claim C5, as amended. Let a blacklisted port have a client identifier whose trailing
  GUID (free of metacharacters) occurs in a line \<^verbatim>\<open>EMAC=<mac> IMAC=<...guid>\<close> of the
  neighbour table of a configured EoIB interface. Then a call that returns normally has
  written into the rule for the port's address the Ethernet address of such a line:
  with the configured interfaces taken in order, and for each readable table the
  inventory's ports under that address in order, each table and port contribute the
  address of the first line of the table that matches the port's GUID, and the last
  contribution is the address written. In particular, when all such lines name one
  Ethernet address, that address is written.
\<close>

theorem remapped_address_is_dropped:
  assumes "manage_firewall (conf env)" and "INTERFACE s \<noteq> None"
    and "priv_should_enable_dhcp env" and "port_list env = Some ports"
    and "update_filters env s = (None, s')"
    and "a \<notin> active_macs env"
    and "table_entry env ports a e"
    and "\<forall>p \<in> set ports. address p = a \<longrightarrow>
           (\<forall>cid. extra p ''client-id'' = Some cid \<longrightarrow>
              \<not> (\<exists>c \<in> set (drop (length cid - 23) cid). regex_special c))"
    and "set (set_iter env (to_blacklist_of env ports)) = to_blacklist_of env ports"
  shows "\<exists>mp base iface new main.
           fst (priv_ib_mac_to_rmac_mapping env (to_blacklist_of env ports) ports) = Inr mp \<and>
           entries env ports a \<noteq> [] \<and>
           remap mp a = last (entries env ports a) \<and>
           table_entry env ports a (last (entries env ports a)) \<and>
           ((\<forall>e'. table_entry env ports a e' \<longrightarrow> e' = e) \<longrightarrow> last (entries env ports a) = e) \<and>
           BASE_COMMAND s = Some base \<and> INTERFACE s = Some iface \<and>
           NEW_CHAIN s = Some new \<and> CHAIN s = Some main \<and>
           a \<in> set (set_iter env (to_blacklist_of env ports)) \<and>
           issued s' = issued s @
             map ((@) base)
               (swap_sequence iface new main
                  (map (\<lambda>mac. drop_rule new (remap mp mac))
                     (set_iter env (to_blacklist_of env ports)) @
                   [accept_rule new])) \<and>
           base @ drop_rule new (last (entries env ports a)) \<in> set (issued s')"
proof -
  let ?bl = "to_blacklist_of env ports"
  let ?e = "last (entries env ports a)"
  from assms(7) have "a \<in> address ` set ports" unfolding table_entry_def by blast
  with assms(6) have abl: "a \<in> ?bl" by (simp add: to_blacklist_of_def)
  have ne: "entries env ports a \<noteq> []" using assms(7) by (rule entries_complete)
  then have "?e \<in> set (entries env ports a)" by simp
  then have te: "table_entry env ports a ?e" by (rule entries_sound)
  then have "length ?e = 17" by (intro emac_shape_length table_entry_shape)
  then have nonempty: "?e \<noteq> []" by auto
  show ?thesis
  proof (cases rule: mapping_cases [of env ?bl ports])
    case (failed lg)
    from update_filters_mapping_error [OF assms(1-4) failed] assms(5) show ?thesis by simp
  next
    case (found mp lg)
    then have m: "fst (priv_ib_mac_to_rmac_mapping env ?bl ports) = Inr mp" by simp
    from mapping_entries [OF m abl assms(8)] ne have mpa: "mp a = Some ?e"
      by (simp add: last_or_def)
    with nonempty have rm: "remap mp a = ?e" by (simp add: remap_def)
    from mpa have "mp \<noteq> Map.empty" by auto
    with found have ns: "\<not> (BLACKLIST_CACHE s = Some ?bl \<and>
        fst (priv_ib_mac_to_rmac_mapping env ?bl ports) = Inr Map.empty)" by simp
    from update_filters_rewritten [OF assms(1-5) ns] found
    obtain base iface new main where
      f: "BASE_COMMAND s = Some base" "INTERFACE s = Some iface"
         "NEW_CHAIN s = Some new" "CHAIN s = Some main"
      and iss: "issued s' = issued s @
             map ((@) base)
               (swap_sequence iface new main
                  (map (drop_rule new) (map (remap mp) (set_iter env ?bl)) @ [accept_rule new]))"
      by auto
    from iss have iss': "issued s' = issued s @
             map ((@) base)
               (swap_sequence iface new main
                  (map (\<lambda>mac. drop_rule new (remap mp mac)) (set_iter env ?bl) @
                   [accept_rule new]))"
      by (simp add: comp_def)
    from abl assms(9) have ain: "a \<in> set (set_iter env ?bl)" by simp
    then have "drop_rule new (remap mp a) \<in>
        set (map (\<lambda>mac. drop_rule new (remap mp mac)) (set_iter env ?bl))" by simp
    with rm have written: "base @ drop_rule new ?e \<in> set (issued s')"
      unfolding iss' by (simp add: swap_sequence_def) blast
    have same: "(\<forall>e'. table_entry env ports a e' \<longrightarrow> e' = e) \<longrightarrow> ?e = e"
      using te by blast
    from m ne rm te same f ain iss' written show ?thesis by blast
  qed
qed

lemma two_env_entries: "entries two_env [ib_port ib_mac] ib_mac = [emac1, emac2]"
  by (simp add: entries_def port_entry_def two_env_def eoib_env_facts neighs_file_ib0
        neighs_file_ib1 ib_port_def ib_client_id_nonempty ib_guid_of_client_id
        all_matches_emac1 all_matches_emac2)

theorem remapped_address_is_dropped_witness:
  "ethoib_interfaces (conf two_env) = [''ib0'', ''ib1''] \<and>
   table_entry two_env [ib_port ib_mac] ib_mac emac1 \<and>
   entries two_env [ib_port ib_mac] ib_mac = [emac1, emac2] \<and>
   fst (update_filters two_env (ready_state ())) = None \<and>
   table_entry two_env [ib_port ib_mac] ib_mac emac2 \<and>
   example_base @ drop_rule ''ironic-inspector_temp'' emac2 \<in>
     set (issued (snd (update_filters two_env (ready_state ()))))"
proof -
  have e: "emac2 \<noteq> []" by (simp add: emac2_def)
  note run = eoib_run [OF two_env_mapping [unfolded two_env_def] e, folded two_env_def]
  have lit: "\<forall>p \<in> set [ib_port ib_mac]. address p = ib_mac \<longrightarrow>
           (\<forall>cid. extra p ''client-id'' = Some cid \<longrightarrow>
              \<not> (\<exists>c \<in> set (drop (length cid - 23) cid). regex_special c))"
    using ib_guid_literal by (simp add: ib_port_def ib_guid_of_client_id)
  have f: "manage_firewall (conf two_env)" "INTERFACE (ready_state ()) \<noteq> None"
    "priv_should_enable_dhcp two_env" "port_list two_env = Some [ib_port ib_mac]"
    "ib_mac \<notin> active_macs two_env"
    "set (set_iter two_env (to_blacklist_of two_env [ib_port ib_mac])) =
       to_blacklist_of two_env [ib_port ib_mac]"
    "ethoib_interfaces (conf two_env) = [''ib0'', ''ib1'']"
    by (simp_all add: two_env_def eoib_env_facts ready_state_def)
  have u: "update_filters two_env (ready_state ()) =
      (None, snd (update_filters two_env (ready_state ())))"
    by (simp add: run)
  from remapped_address_is_dropped [OF f(1-4) u f(5) two_env_entry lit f(6)]
  have "table_entry two_env [ib_port ib_mac] ib_mac emac2 \<and>
     example_base @ drop_rule ''ironic-inspector_temp'' emac2 \<in>
     set (issued (snd (update_filters two_env (ready_state ()))))"
    by (auto simp: ready_state_def two_env_entries)
  moreover have "fst (update_filters two_env (ready_state ())) = None" by (simp add: run)
  ultimately show ?thesis using f(7) two_env_entry two_env_entries by simp
qed

theorem remapped_address_is_dropped_counterexample:
  "ethoib_interfaces (conf two_env) = [''ib0'', ''ib1''] \<and>
   port_list two_env = Some [ib_port ib_mac] \<and> ib_mac \<notin> active_macs two_env \<and>
   table_entry two_env [ib_port ib_mac] ib_mac emac1 \<and>
   emac1 \<noteq> emac2 \<and>
   fst (update_filters two_env (ready_state ())) = None \<and>
   issued (snd (update_filters two_env (ready_state ()))) =
     example_swap [drop_rule ''ironic-inspector_temp'' emac2,
                   accept_rule ''ironic-inspector_temp'']"
proof -
  have e: "emac2 \<noteq> []" by (simp add: emac2_def)
  note run = eoib_run [OF two_env_mapping [unfolded two_env_def] e, folded two_env_def]
  have "emac1 \<noteq> emac2" by (simp add: emac1_def emac2_def)
  with two_env_entry show ?thesis
    by (simp add: run) (simp add: two_env_def eoib_env_facts)
qed

section \<open>Properties of the orchestrator\<close>

lemma contains_here: "contains (text @ post) text"
proof (cases "text @ post")
  case Nil
  then show ?thesis by simp
next
  case (Cons a list)
  then have "take (length text) (a # list) = text" by (metis append_eq_conv_conj)
  then have "contains (a # list) text" by simp
  with Cons show ?thesis by simp
qed

lemma contains_append: "contains (pre @ text @ post) text"
  by (induction pre) (simp_all add: contains_here)

lemma retry_on_conflict_run:
  "\<lbrakk>\<forall>j<i. answer (k + j) = Conflict; answer (k + i) \<noteq> Conflict; i < n\<rbrakk>
   \<Longrightarrow> retry_on_conflict n answer k = (answer (k + i), k + Suc i)"
proof (induction n arbitrary: k i)
  case 0
  then show ?case by simp
next
  case (Suc n)
  show ?case
  proof (cases i)
    case 0
    with Suc.prems show ?thesis by (simp split: reply.splits)
  next
    case (Suc i')
    from Suc.prems Suc have first: "answer k = Conflict" by (metis add.right_neutral zero_less_Suc)
    from Suc.prems Suc have "\<forall>j<i'. answer (Suc k + j) = Conflict" by auto
    moreover from Suc.prems Suc have "answer (Suc k + i') \<noteq> Conflict" by simp
    moreover from Suc.prems Suc have "i' < n" by simp
    ultimately have "retry_on_conflict n answer (Suc k) = (answer (Suc k + i'), Suc k + Suc i')"
      by (rule Suc.IH)
    with first Suc \<open>i' < n\<close> show ?thesis by simp
  qed
qed

lemma undisturbed_refl: "undisturbed tr tr"
  by (simp add: undisturbed_def)

lemma undisturbed_trans: "undisturbed a b \<Longrightarrow> undisturbed b c \<Longrightarrow> undisturbed a c"
  by (simp add: undisturbed_def)

lemma update_node_retry_done:
  "update_node_retry cfg cl patches tr = (None, tr') \<Longrightarrow>
   clock_reads tr' = clock_reads tr \<and> polls tr' = polls tr \<and> finished tr' = finished tr \<and>
   node_updates tr' = node_updates tr @ [patches]"
  by (auto simp add: update_node_retry_def Let_def split: reply.splits)

lemma update_port_retry_undisturbed:
  "update_port_retry cfg cl u patches tr = (None, tr') \<Longrightarrow> undisturbed tr tr'"
  by (auto simp add: update_port_retry_def undisturbed_def Let_def split: reply.splits)

lemma port_sync_undisturbed:
  "port_sync cl ms tr = (r, tr') \<Longrightarrow> undisturbed tr tr'"
proof (induction ms arbitrary: tr r tr')
  case Nil
  then show ?case by (auto simp: undisturbed_def)
next
  case (Cons m ms)
  let ?tr = "tr\<lparr>port_calls := Suc (port_calls tr)\<rparr>"
  obtain r1 tr1 where rest: "port_sync cl ms ?tr = (r1, tr1)" by (cases "port_sync cl ms ?tr")
  from Cons.IH [OF rest] have kept: "undisturbed tr tr1" by (simp add: undisturbed_def)
  from Cons.prems rest have "tr' = ?tr \<or> tr' = tr1"
    by (auto simp add: Let_def split: reply.splits sum.splits)
  with kept show ?case by (auto simp: undisturbed_def)
qed

lemma port_patches_undisturbed:
  "port_patches cfg cl ports mps tr = (None, tr') \<Longrightarrow> undisturbed tr tr'"
proof (induction mps arbitrary: tr)
  case Nil
  then show ?case by (simp add: undisturbed_refl)
next
  case (Cons mp mps)
  from Cons.prems obtain u tr1 where
    one: "update_port_retry cfg cl u (snd mp) tr = (None, tr1)" and
    rest: "port_patches cfg cl ports mps tr1 = (None, tr')"
    by (auto split: option.splits prod.splits)
  from one have "undisturbed tr tr1" by (rule update_port_retry_undisturbed)
  moreover from rest have "undisturbed tr1 tr'" by (rule Cons.IH)
  ultimately show ?case by (rule undisturbed_trans)
qed

lemma validate_credentials_undisturbed:
  "validate_credentials n cl session tr = (None, tr') \<Longrightarrow> undisturbed tr tr'"
proof (induction n arbitrary: tr)
  case 0
  then show ?case by simp
next
  case (Suc n)
  let ?tr = "tr\<lparr>probe_calls := Suc (probe_calls tr)\<rparr>"
  have step: "undisturbed tr ?tr" by (simp add: undisturbed_def)
  from Suc.prems have "tr' = ?tr \<or> validate_credentials n cl session ?tr = (None, tr')"
    by (auto simp add: Let_def split: reply.splits)
  then show ?case
  proof
    assume "tr' = ?tr"
    with step show ?thesis by simp
  next
    assume "validate_credentials n cl session ?tr = (None, tr')"
    then have "undisturbed ?tr tr'" by (rule Suc.IH)
    with step show ?thesis by (rule undisturbed_trans)
  qed
qed

text \<open>What the two phases that make node updates before the power-off commit.\<close>

lemma hook_phase_done:
  assumes "hook_phase cfg cl nd record ports tr = (None, tr')"
  shows "\<exists>out. pipeline cfg ports = Inr out \<and>
           clock_reads tr' = clock_reads tr \<and> polls tr' = polls tr \<and>
           finished tr' = finished tr \<and>
           node_updates tr' = node_updates tr @ [baseline_patch cfg nd record @ fst out]"
proof -
  from assms obtain out where out: "pipeline cfg ports = Inr out" and
    run: "phases [update_node_retry cfg cl (baseline_patch cfg nd record @ fst out),
                  port_patches cfg cl ports (snd out)] tr = (None, tr')"
    by (cases "pipeline cfg ports") (auto simp add: hook_phase_def)
  from run obtain tr1 where
    one: "update_node_retry cfg cl (baseline_patch cfg nd record @ fst out) tr = (None, tr1)" and
    two: "port_patches cfg cl ports (snd out) tr1 = (None, tr')"
    by (auto split: prod.splits option.splits)
  from update_node_retry_done [OF one] port_patches_undisturbed [OF two] out
  show ?thesis by (auto simp: undisturbed_def)
qed

lemma credential_rotation_done:
  assumes "credential_rotation cfg cl nd record session tr = (None, tr')"
  shows "clock_reads tr' = clock_reads tr \<and> polls tr' = polls tr \<and>
         finished tr' = finished tr \<and>
         node_updates tr' = node_updates tr @
           (case new_ipmi_credentials session of
              None \<Rightarrow> []
            | Some creds \<Rightarrow> [credentials_patch nd record creds])"
proof (cases "new_ipmi_credentials session")
  case None
  with assms show ?thesis by (simp add: credential_rotation_def)
next
  case (Some creds)
  with assms have
    "phases [update_node_retry cfg cl (credentials_patch nd record creds),
             validate_credentials (credential_attempts cfg) cl session] tr = (None, tr')"
    by (simp add: credential_rotation_def)
  then obtain tr1 where
    one: "update_node_retry cfg cl (credentials_patch nd record creds) tr = (None, tr1)" and
    two: "validate_credentials (credential_attempts cfg) cl session tr1 = (None, tr')"
    by (auto split: prod.splits option.splits)
  from update_node_retry_done [OF one] validate_credentials_undisturbed [OF two] Some
  show ?thesis by (auto simp: undisturbed_def)
qed

lemma before_power_off_done:
  assumes "before_power_off cfg cl nd record session tr = (None, tr')"
    and "fst (port_sync cl (macs record) tr) = Inr ports" and "pipeline cfg ports = Inr out"
  shows "clock_reads tr' = clock_reads tr \<and> polls tr' = polls tr \<and> finished tr' = finished tr \<and>
         node_updates tr' = node_updates tr @
           (baseline_patch cfg nd record @ fst out) #
           (case new_ipmi_credentials session of
              None \<Rightarrow> []
            | Some creds \<Rightarrow> [credentials_patch nd record creds])"
proof -
  obtain tr1 where sync: "port_sync cl (macs record) tr = (Inr ports, tr1)"
    using assms(2) by (cases "port_sync cl (macs record) tr") auto
  with assms(1) have
    "phases [hook_phase cfg cl nd record ports,
             credential_rotation cfg cl nd record session] tr1 = (None, tr')"
    by (simp add: before_power_off_def)
  then obtain tr2 where
    one: "hook_phase cfg cl nd record ports tr1 = (None, tr2)" and
    two: "credential_rotation cfg cl nd record session tr2 = (None, tr')"
    by (auto split: prod.splits option.splits)
  from port_sync_undisturbed [OF sync] hook_phase_done [OF one] credential_rotation_done [OF two]
    assms(3)
  show ?thesis by (auto simp: undisturbed_def)
qed

lemma command_power_off_done:
  "command_power_off cfg cl session tr = (None, tr') \<Longrightarrow>
   clock_reads tr' = clock_reads tr \<and> polls tr' = polls tr \<and> finished tr' = finished tr \<and>
   node_updates tr' = node_updates tr \<and> update_calls tr' = update_calls tr"
  by (auto simp add: command_power_off_def Let_def split: reply.splits)

lemma wait_power_off_timeout:
  "\<lbrakk>\<forall>j<k. clock cl (clock_reads tr + j) - started_at session \<le> timeout cfg \<and>
           get_node cl (polls tr + j) \<noteq> Some ''power off'';
     timeout cfg < clock cl (clock_reads tr + k) - started_at session; k < fuel\<rbrakk>
   \<Longrightarrow> wait_power_off fuel cfg cl session tr =
         Some (Some (Reported (timeout_message (session_uuid session))),
               tr\<lparr>clock_reads := clock_reads tr + Suc k, polls := polls tr + k,
                  finished := finished tr @ [Some (timeout_message (session_uuid session))]\<rparr>)"
proof (induction fuel arbitrary: k tr)
  case 0
  then show ?case by simp
next
  case (Suc fuel)
  show ?case
  proof (cases k)
    case 0
    with Suc.prems show ?thesis by (simp add: Let_def)
  next
    case (Suc k')
    let ?tr = "tr\<lparr>clock_reads := Suc (clock_reads tr), polls := Suc (polls tr)\<rparr>"
    from Suc.prems(1) Suc have now: "clock cl (clock_reads tr) - started_at session \<le> timeout cfg"
      and on: "get_node cl (polls tr) \<noteq> Some ''power off''"
      by (metis add.right_neutral zero_less_Suc)+
    from Suc.prems(1) Suc have
      "\<forall>j<k'. clock cl (clock_reads ?tr + j) - started_at session \<le> timeout cfg \<and>
              get_node cl (polls ?tr + j) \<noteq> Some ''power off''"
      by auto
    moreover from Suc.prems(2) Suc have
      "timeout cfg < clock cl (clock_reads ?tr + k') - started_at session" by simp
    moreover from Suc.prems(3) Suc have "k' < fuel" by simp
    ultimately have
      "wait_power_off fuel cfg cl session ?tr =
       Some (Some (Reported (timeout_message (session_uuid session))),
             ?tr\<lparr>clock_reads := clock_reads ?tr + Suc k', polls := polls ?tr + k',
                  finished := finished ?tr @ [Some (timeout_message (session_uuid session))]\<rparr>)"
      by (rule Suc.IH)
    with now on Suc show ?thesis by (simp add: Let_def)
  qed
qed

lemmas session_defs =
  discovered_node_def discovered_record_def plain_session_def rotating_session_def
  session_settings_def late_client_def conflicting_client_def failing_client_def
  patch_before_def patch_credentials_def patch_after_def no_calls_def

lemmas session_run_defs =
  run_session_def before_power_off_def hook_phase_def credential_rotation_def
  update_node_retry_def command_power_off_def baseline_patch_def credentials_patch_def
  timeout_message_def finalize_def Let_def numeral_eq_Suc

lemma baseline_patch_example:
  "baseline_patch session_settings discovered_node discovered_record = patch_before"
  by (simp add: baseline_patch_def session_defs)

text \<open>
  The runs of three tests: \<open>test_power_off_timeout\<close> up to the power-off phase (one
  node update, with \<open>patch_before\<close>), \<open>test_update_retry_on_conflict\<close> (four calls
  of \<open>node.update\<close>, which commit \<open>patch_before\<close> and \<open>patch_after\<close>), and
  \<open>test_set_ipmi_credentials\<close> up to the power-off phase.
\<close>

lemma late_before:
  "before_power_off session_settings late_client discovered_node discovered_record plain_session
     no_calls =
   (None, no_calls\<lparr>port_calls := 2, update_calls := 1, node_updates := [patch_before]\<rparr>)"
  by (simp add: session_run_defs session_defs)

lemma late_command:
  "command_power_off session_settings late_client plain_session
     (no_calls\<lparr>port_calls := 2, update_calls := 1, node_updates := [patch_before]\<rparr>) =
   (None, no_calls\<lparr>port_calls := 2, update_calls := 1, node_updates := [patch_before],
                  power_calls := 1\<rparr>)"
  by (simp add: session_run_defs session_defs)

lemma late_sync:
  "fst (port_sync late_client (macs discovered_record) no_calls) =
     Inr [(''11:22:33:44:55:66'', ''port_uuid0''), (''66:55:44:33:22:11'', ''port_uuid1'')]"
  "pipeline session_settings ports = Inr ([], [])"
  by (simp_all add: session_defs Let_def)

lemma conflicting_session_run:
  "run_session 3 session_settings conflicting_client discovered_node discovered_record
     plain_session no_calls =
   Some (None, no_calls\<lparr>port_calls := 2, update_calls := 4,
                        node_updates := [patch_before, patch_after],
                        power_calls := 1, polls := 3, clock_reads := 3, finished := [None]\<rparr>)"
  by (simp add: session_run_defs session_defs)

lemma rotating_before:
  "before_power_off session_settings late_client discovered_node discovered_record
     rotating_session no_calls =
   (None, no_calls\<lparr>port_calls := 2, update_calls := 2,
                  node_updates := [patch_before, patch_credentials], probe_calls := 1\<rparr>)"
  by (simp add: session_run_defs session_defs)

text \<open>
  C8. A node update of a session that meets a conflict at each of its first N - 1
  attempts and succeeds at the N-th, N within the bound on the attempts, has made exactly N
  update calls, its patch is committed and the run goes on with the phases that follow;
  if the N-th attempt fails otherwise, the failure propagates after exactly N calls and
  nothing more is attempted.
\<close>

theorem node_update_retried:
  assumes "0 < N" and "N \<le> max_attempts cfg"
    and "\<forall>j<N - 1. update_node cl (update_calls tr + j) = Conflict"
  shows "(update_node cl (update_calls tr + (N - 1)) = Reply () \<longrightarrow>
            phases (update_node_retry cfg cl patches # rest) tr =
            phases rest (tr\<lparr>update_calls := update_calls tr + N,
                             node_updates := node_updates tr @ [patches]\<rparr>)) \<and>
         (\<forall>d. update_node cl (update_calls tr + (N - 1)) = Failure d \<longrightarrow>
            phases (update_node_retry cfg cl patches # rest) tr =
            (Some (Raised d), tr\<lparr>update_calls := update_calls tr + N\<rparr>))"
proof -
  have run: "retry_on_conflict (max_attempts cfg) (update_node cl) (update_calls tr) =
             (update_node cl (update_calls tr + (N - 1)), update_calls tr + N)"
    if "update_node cl (update_calls tr + (N - 1)) \<noteq> Conflict"
    using retry_on_conflict_run [of "N - 1" "update_node cl" "update_calls tr" "max_attempts cfg"]
      assms that by simp
  show ?thesis
  proof (intro conjI impI allI)
    assume ok: "update_node cl (update_calls tr + (N - 1)) = Reply ()"
    with run show "phases (update_node_retry cfg cl patches # rest) tr =
                   phases rest (tr\<lparr>update_calls := update_calls tr + N,
                                    node_updates := node_updates tr @ [patches]\<rparr>)"
      by (simp add: update_node_retry_def)
  next
    fix d
    assume "update_node cl (update_calls tr + (N - 1)) = Failure d"
    with run show "phases (update_node_retry cfg cl patches # rest) tr =
                   (Some (Raised d), tr\<lparr>update_calls := update_calls tr + N\<rparr>)"
      by (simp add: update_node_retry_def)
  qed
qed

theorem node_update_retried_witness:
  "phases [update_node_retry session_settings conflicting_client patch_before] no_calls =
     (None, no_calls\<lparr>update_calls := 2, node_updates := [patch_before]\<rparr>) \<and>
   phases [update_node_retry session_settings failing_client patch_before] no_calls =
     (Some (Raised ''boom''), no_calls\<lparr>update_calls := 2\<rparr>)"
  using node_update_retried [of 2 session_settings conflicting_client no_calls patch_before "[]"]
    node_update_retried [of 2 session_settings failing_client no_calls patch_before "[]"]
  by (simp add: session_settings_def conflicting_client_def failing_client_def late_client_def
      no_calls_def)

text \<open>
  C7, as amended. When the phases before the power-off have succeeded and the command
  has been accepted, and the clock passes the timeout (counted from the session's
  \<open>started_at\<close>) at its reading k + 1, the node not having reported ``power off'' at
  the k polls before: the run ends, with enough fuel, by raising the error ``Timeout
  waiting for node <uuid> to power off after introspection'', which contains ``power
  off''; the session has been finalized once, with that message; and the node updates
  committed are exactly those made before the power-off phase: the first update, which
  carries the baseline property patch and the node patches of the hooks, and, for a
  session with new credentials, the credentials patch. The update that follows a
  completed power-off is not made.
\<close>

theorem power_off_timeout:
  assumes "before_power_off cfg cl nd record session no_calls = (None, tr)"
    and "fst (port_sync cl (macs record) no_calls) = Inr ports"
    and "pipeline cfg ports = Inr out"
    and "command_power_off cfg cl session tr = (None, tr')"
    and "\<forall>j<k. clock cl j - started_at session \<le> timeout cfg \<and> get_node cl j \<noteq> Some ''power off''"
    and "timeout cfg < clock cl k - started_at session"
    and "k < fuel"
  shows "\<exists>tr2. run_session fuel cfg cl nd record session no_calls =
                  Some (Some (Reported (timeout_message (session_uuid session))), tr2) \<and>
           contains (timeout_message (session_uuid session)) ''power off'' \<and>
           finished tr2 = [Some (timeout_message (session_uuid session))] \<and>
           node_updates tr2 =
             (baseline_patch cfg nd record @ fst out) #
             (case new_ipmi_credentials session of
                None \<Rightarrow> []
              | Some creds \<Rightarrow> [credentials_patch nd record creds]) \<and>
           update_calls tr2 = update_calls tr \<and> clock_reads tr2 = Suc k \<and> polls tr2 = k"
proof -
  note before = before_power_off_done [OF assms(1,2,3)]
  note command = command_power_off_done [OF assms(4)]
  from before command have start: "clock_reads tr' = 0" "polls tr' = 0" "finished tr' = []"
    by (simp_all add: no_calls_def)
  let ?tr2 = "tr'\<lparr>clock_reads := Suc k, polls := k,
                 finished := [Some (timeout_message (session_uuid session))]\<rparr>"
  from assms(5,6,7) start have
    "wait_power_off fuel cfg cl session tr' =
     Some (Some (Reported (timeout_message (session_uuid session))),
           tr'\<lparr>clock_reads := clock_reads tr' + Suc k, polls := polls tr' + k,
               finished := finished tr' @ [Some (timeout_message (session_uuid session))]\<rparr>)"
    by (intro wait_power_off_timeout) simp_all
  with assms(1,4) start have run:
    "run_session fuel cfg cl nd record session no_calls =
     Some (Some (Reported (timeout_message (session_uuid session))), ?tr2)"
    by (simp add: run_session_def)
  have c: "contains (timeout_message (session_uuid session)) ''power off''"
    unfolding timeout_message_def
    using contains_append [of "''Timeout waiting for node '' @ session_uuid session @ '' to ''"
        "''power off''" "'' after introspection''"]
    by simp
  from before command have
    "node_updates ?tr2 =
       (baseline_patch cfg nd record @ fst out) #
       (case new_ipmi_credentials session of
          None \<Rightarrow> []
        | Some creds \<Rightarrow> [credentials_patch nd record creds])"
    and "update_calls ?tr2 = update_calls tr"
    by (simp_all add: no_calls_def)
  with run c show ?thesis by (intro exI [of _ ?tr2]) simp
qed

theorem power_off_timeout_witness:
  "run_session 1 session_settings late_client discovered_node discovered_record plain_session
     no_calls =
   Some (Some (Reported (timeout_message ''uuid'')),
         no_calls\<lparr>port_calls := 2, update_calls := 1, node_updates := [patch_before],
                  power_calls := 1, clock_reads := 1,
                  finished := [Some (timeout_message ''uuid'')]\<rparr>) \<and>
   contains (timeout_message ''uuid'') ''power off''"
proof -
  from power_off_timeout [OF late_before late_sync late_command, of 0 1]
  obtain tr2 where
    "run_session 1 session_settings late_client discovered_node discovered_record plain_session
       no_calls = Some (Some (Reported (timeout_message ''uuid'')), tr2)"
    and "contains (timeout_message ''uuid'') ''power off''"
    by (auto simp add: session_settings_def late_client_def plain_session_def)
  moreover have
    "run_session 1 session_settings late_client discovered_node discovered_record plain_session
       no_calls =
     Some (Some (Reported (timeout_message ''uuid'')),
         no_calls\<lparr>port_calls := 2, update_calls := 1, node_updates := [patch_before],
                  power_calls := 1, clock_reads := 1,
                  finished := [Some (timeout_message ''uuid'')]\<rparr>)"
    by (simp add: session_run_defs session_defs)
  ultimately show ?thesis by simp
qed

theorem power_off_timeout_counterexample:
  "run_session 1 session_settings late_client discovered_node discovered_record rotating_session
     no_calls =
   Some (Some (Reported (timeout_message ''uuid'')),
         no_calls\<lparr>port_calls := 2, update_calls := 2,
                  node_updates := [patch_before, patch_credentials],
                  power_calls := 1, probe_calls := 1, clock_reads := 1,
                  finished := [Some (timeout_message ''uuid'')]\<rparr>) \<and>
   baseline_patch session_settings discovered_node discovered_record = patch_before \<and>
   [patch_before, patch_credentials] \<noteq> [patch_before]"
  by (simp add: session_run_defs session_defs)

end
